theory Spec2Isabelle
  imports Complex_Main "HOL-Library.Word" "HOL-Library.Sublist"
begin

unbundle bit_operations_syntax

section \<open>fincore: counting the pages of a file that are in core\<close>

text \<open>
  A shallow embedding of \<^verbatim>\<open>misc-utils/fincore.c\<close>. The C integers are modelled as
  \<open>int\<close> with the conversions of an LP64 platform written out: \<^verbatim>\<open>int\<close> is 32 bits,
  \<^verbatim>\<open>size_t\<close> is 64 bits unsigned and \<^verbatim>\<open>off_t\<close> is 64 bits signed. Signed arithmetic
  that overflows is undefined in C; the model lets it wrap around, and the theorems
  that depend on it assume that it does not happen. A function that may trap (the
  division by the page size) or loop forever returns \<open>None\<close>. The system calls and the
  table library are parameters: their answers are given with the arguments.
\<close>

subsection \<open>Machine integers\<close>

definition to_int :: "int \<Rightarrow> int" where
  "to_int x = (x + 2 ^ 31) mod 2 ^ 32 - 2 ^ 31"

definition to_size_t :: "int \<Rightarrow> int" where
  "to_size_t x = x mod 2 ^ 64"

definition to_off_t :: "int \<Rightarrow> int" where
  "to_off_t x = (x + 2 ^ 63) mod 2 ^ 64 - 2 ^ 63"

definition N_PAGES_IN_WINDOW :: int where
  "N_PAGES_IN_WINDOW = 32 * 1024"

definition EXIT_SUCCESS :: int where
  "EXIT_SUCCESS = 0"

definition EXIT_FAILURE :: int where
  "EXIT_FAILURE = 1"

subsection \<open>The operating system, as seen while one argument is processed\<close>

datatype errno = ENOENT | EIO | EBADF | EAGAIN | ENOMEM | EACCES | EFAULT | EINVAL | EOVERFLOW

fun errno_val :: "errno \<Rightarrow> int" where
  "errno_val ENOENT = 2"
| "errno_val EIO = 5"
| "errno_val EBADF = 9"
| "errno_val EAGAIN = 11"
| "errno_val ENOMEM = 12"
| "errno_val EACCES = 13"
| "errno_val EFAULT = 14"
| "errno_val EINVAL = 22"
| "errno_val EOVERFLOW = 75"

text \<open>The two fields of \<^verbatim>\<open>struct stat\<close> that the program reads:
  \<^verbatim>\<open>S_ISDIR(st_mode)\<close> and \<^verbatim>\<open>st_size\<close>.\<close>

record stat =
  st_isdir :: bool
  st_size :: int

text \<open>What \<^verbatim>\<open>mincore\<close> did: the bytes it stored at the start of the vector, and
  whether it failed.\<close>

datatype mincore_res = MincoreOk "8 word list" | MincoreErr errno "8 word list"

text \<open>
  The answers of the system calls made for one command-line argument.
  \<open>sys_open\<close> is the value \<^verbatim>\<open>open\<close> returns, \<open>sys_mmap window len fd offset\<close> is the
  address \<^verbatim>\<open>mmap\<close> returns (\<open>None\<close> for \<^verbatim>\<open>MAP_FAILED\<close>), \<open>sys_mincore offset window len\<close>
  is what \<^verbatim>\<open>mincore\<close> does when it is called while the window at \<open>offset\<close> of the file
  is mapped, \<open>new_line_ok\<close> tells whether \<^verbatim>\<open>scols_table_new_line\<close>
  returns a line, and \<open>sb_uninit\<close> is the indeterminate content of the local
  \<^verbatim>\<open>struct stat sb\<close> of \<^verbatim>\<open>main\<close> before \<^verbatim>\<open>fstat\<close> fills it.
\<close>

record sys =
  sys_open :: int
  sys_fstat :: "errno + stat"
  sys_mmap :: "int \<Rightarrow> int \<Rightarrow> int \<Rightarrow> int \<Rightarrow> int option"
  sys_mincore :: "int \<Rightarrow> int \<Rightarrow> int \<Rightarrow> mincore_res"
  new_line_ok :: bool
  sb_uninit :: stat

subsection \<open>The state of the program\<close>

text \<open>The calls and diagnostics of a run, in the order they happen. \<open>VecRead\<close> and
  \<open>VecClear\<close> record the accesses of the counting loop to the vector, \<open>Result\<close> the
  value \<^verbatim>\<open>fincore_name\<close> returned to the \<^verbatim>\<open>switch\<close> of \<^verbatim>\<open>main\<close>.\<close>

datatype event =
    Open string int
  | Fstat int
  | Close int
  | Mmap int int int "int option"
  | Mincore int int
  | Munmap int int
  | VecRead int
  | VecClear int
  | Warn string string
  | Err string
  | Result string int

text \<open>\<open>vec\<close> is the static array of \<^verbatim>\<open>do_mincore\<close>; its elements are the indices below
  \<open>N_PAGES_IN_WINDOW\<close>.\<close>

record state =
  vec :: "nat \<Rightarrow> 8 word"
  trace :: "event list"

definition emit :: "event list \<Rightarrow> state \<Rightarrow> state" where
  "emit es s = s\<lparr>trace := trace s @ es\<rparr>"

definition store_bytes :: "8 word list \<Rightarrow> (nat \<Rightarrow> 8 word) \<Rightarrow> (nat \<Rightarrow> 8 word)" where
  "store_bytes bs v = (\<lambda>i. if i < length bs then bs ! i else v i)"

subsection \<open>do_mincore\<close>

text \<open>
  \<^verbatim>\<open>while (n > 0) { if (vec[--n] & 0x1) { vec[n] = 0; (*count_incore)++; } }\<close>
\<close>

function count_loop :: "int \<Rightarrow> int \<Rightarrow> state \<Rightarrow> int \<times> state" where
  "count_loop n count_incore s =
     (if n > 0 then
        (if vec s (nat (n - 1)) AND 1 \<noteq> 0
         then count_loop (n - 1) (to_off_t (count_incore + 1))
                (emit [VecRead (n - 1), VecClear (n - 1)] (s\<lparr>vec := (vec s)(nat (n - 1) := 0)\<rparr>))
         else count_loop (n - 1) count_incore (emit [VecRead (n - 1)] s))
      else (count_incore, s))"
  by pat_completeness auto
termination
  by (relation "measure (\<lambda>(n, c, s). nat n)") auto

text \<open>
  \<^verbatim>\<open>int n = (len / ctl->pagesize) + ((len % ctl->pagesize)? 1: 0);\<close>
  \<open>len\<close> is a \<^verbatim>\<open>size_t\<close>, so the page size is converted to \<^verbatim>\<open>size_t\<close> and the sum
  to \<^verbatim>\<open>int\<close>.
\<close>

definition n_pages :: "int \<Rightarrow> int \<Rightarrow> int" where
  "n_pages pagesize len =
     to_int (to_size_t (len div to_size_t pagesize
                        + (if len mod to_size_t pagesize \<noteq> 0 then 1 else 0)))"

text \<open>\<open>mincore\<close> is the system call as it answers at the time of this call. The result
  is the returned value and the new \<^verbatim>\<open>*count_incore\<close>; \<open>None\<close> is the trap of a division
  by a zero page size.\<close>

definition do_mincore ::
  "int \<Rightarrow> (int \<Rightarrow> int \<Rightarrow> mincore_res) \<Rightarrow> int \<Rightarrow> int \<Rightarrow> string \<Rightarrow> int \<Rightarrow> state
     \<Rightarrow> (int \<times> int \<times> state) option" where
  "do_mincore pagesize mincore window len name count_incore s =
     (if to_size_t pagesize = 0 then None
      else
        (case mincore window len of
           MincoreErr e bs \<Rightarrow>
             Some (- errno_val e, count_incore,
                   emit [Mincore window len, Warn ''failed to do mincore'' name]
                     (s\<lparr>vec := store_bytes bs (vec s)\<rparr>))
         | MincoreOk bs \<Rightarrow>
             (case count_loop (n_pages pagesize len) count_incore
                     (emit [Mincore window len] (s\<lparr>vec := store_bytes bs (vec s)\<rparr>)) of
                (c, s') \<Rightarrow> Some (0, c, s'))))"

subsection \<open>fincore_fd\<close>

text \<open>
  The \<^verbatim>\<open>for\<close> loop over the windows. The loop variables are \<open>file_offset\<close>, \<open>window\<close>,
  \<open>rc\<close> and \<open>warned_once\<close>; the result is the returned \<open>rc\<close> and the new
  \<^verbatim>\<open>*count_incore\<close>.
\<close>

partial_function (option) fincore_fd_loop ::
  "int \<Rightarrow> sys \<Rightarrow> int \<Rightarrow> string \<Rightarrow> int \<Rightarrow> int \<Rightarrow> int \<Rightarrow> int \<Rightarrow> int \<Rightarrow> bool \<Rightarrow> int \<Rightarrow> state
     \<Rightarrow> (int \<times> int \<times> state) option" where
  "fincore_fd_loop pagesize os fd name file_size window_size
       file_offset window rc warned_once count_incore s =
     (if file_offset < file_size then
        (let len0 = to_size_t (to_off_t (file_size - file_offset));
             len = (if len0 \<ge> window_size then window_size else len0)
         in
           case sys_mmap os window len fd file_offset of
             None \<Rightarrow>
               (if \<not> warned_once
                then Some (- errno_val EINVAL, count_incore,
                           emit [Mmap len fd file_offset None, Warn ''failed to do mmap'' name] s)
                else Some (rc, count_incore, emit [Mmap len fd file_offset None] s))
           | Some w \<Rightarrow>
               (case do_mincore pagesize (sys_mincore os file_offset) w len name count_incore
                       (emit [Mmap len fd file_offset (Some w)] s) of
                  None \<Rightarrow> None
                | Some (rc', c, s') \<Rightarrow>
                    if rc' \<noteq> 0 then Some (rc', c, s')
                    else fincore_fd_loop pagesize os fd name file_size window_size
                           (to_off_t (to_size_t (to_size_t file_offset + window_size)))
                           w rc' warned_once c (emit [Munmap w len] s')))
      else Some (rc, count_incore, s))"

declare fincore_fd_loop.simps [code]

definition fincore_fd ::
  "int \<Rightarrow> sys \<Rightarrow> int \<Rightarrow> string \<Rightarrow> int \<Rightarrow> int \<Rightarrow> state \<Rightarrow> (int \<times> int \<times> state) option" where
  "fincore_fd pagesize os fd name file_size count_incore s =
     fincore_fd_loop pagesize os fd name file_size
       (to_size_t (to_int (N_PAGES_IN_WINDOW * pagesize)))
       0 0 0 False count_incore s"

subsection \<open>fincore_name\<close>

text \<open>
  Returns: \<^verbatim>\<open><0\<close> on error, \<^verbatim>\<open>0\<close> success, \<^verbatim>\<open>1\<close> ignore. The result is the returned
  value, the content of \<^verbatim>\<open>*sb\<close> and the new \<^verbatim>\<open>*count_incore\<close>.
\<close>

definition fincore_name ::
  "int \<Rightarrow> sys \<Rightarrow> string \<Rightarrow> stat \<Rightarrow> int \<Rightarrow> state \<Rightarrow> (int \<times> stat \<times> int \<times> state) option" where
  "fincore_name pagesize os name sb count_incore s =
     (let fd = sys_open os in
      if fd < 0 then
        Some (0, sb, count_incore, emit [Open name fd, Warn ''failed to open'' name] s)
      else
        (case sys_fstat os of
           Inl e \<Rightarrow>
             Some (- errno_val e, sb, count_incore,
                   emit [Open name fd, Fstat fd, Warn ''failed to do fstat'' name] s)
         | Inr sb' \<Rightarrow>
             if st_isdir sb' then
               Some (1, sb', count_incore, emit [Open name fd, Fstat fd, Close fd] s)
             else if st_size sb' \<noteq> 0 then
               (case fincore_fd pagesize os fd name (st_size sb') count_incore
                       (emit [Open name fd, Fstat fd] s) of
                  None \<Rightarrow> None
                | Some (rc, c, s') \<Rightarrow> Some (rc, sb', c, emit [Close fd] s'))
             else
               Some (0, sb', count_incore, emit [Open name fd, Fstat fd, Close fd] s)))"

subsection \<open>The output table\<close>

datatype column = COL_PAGES | COL_SIZE | COL_FILE

text \<open>The data of a cell, before it is formatted: the count for \<^verbatim>\<open>PAGES\<close>, the size
  for \<^verbatim>\<open>SIZE\<close>, the name for \<^verbatim>\<open>FILE\<close>.\<close>

datatype cell = Pages int | Size int | File string

text \<open>\<^verbatim>\<open>main\<close> fills the empty \<^verbatim>\<open>columns\<close> array with these three.\<close>

definition columns :: "column list" where
  "columns = [COL_PAGES, COL_SIZE, COL_FILE]"

text \<open>
  \<^verbatim>\<open>add_output_data\<close>: \<open>line_ok\<close> tells whether \<^verbatim>\<open>scols_table_new_line\<close> returns a line.
  The result is the line added to the table, or the message of \<^verbatim>\<open>err\<close>, which ends the
  process with \<open>EXIT_FAILURE\<close>. The \<^verbatim>\<open>default\<close> branch of the \<^verbatim>\<open>switch\<close> has no
  counterpart: \<open>columns\<close> holds the three known columns only.
\<close>

definition add_output_data :: "bool \<Rightarrow> string \<Rightarrow> int \<Rightarrow> int \<Rightarrow> string + cell list" where
  "add_output_data line_ok name file_size count_incore =
     (if \<not> line_ok then Inl ''failed to initialize output line''
      else Inr (map (\<lambda>c. case c of
                          COL_FILE \<Rightarrow> File name
                        | COL_PAGES \<Rightarrow> Pages count_incore
                        | COL_SIZE \<Rightarrow> Size file_size) columns))"

subsection \<open>main\<close>

text \<open>
  The loop of \<^verbatim>\<open>main\<close> over the file arguments, each paired with the answers of the
  system for it. The loop variables are the exit status \<open>rc\<close>, the lines \<open>tb\<close> of the
  table and the state. The result is the exit status of the process, the table it
  printed and the final state. \<^verbatim>\<open>err\<close> ends the process with \<open>EXIT_FAILURE\<close> before
  the table is printed. \<open>Result\<close> records the value that the \<^verbatim>\<open>switch\<close> examines.
\<close>

fun main_loop ::
  "int \<Rightarrow> (string \<times> sys) list \<Rightarrow> int \<Rightarrow> cell list list \<Rightarrow> state
     \<Rightarrow> (int \<times> cell list list \<times> state) option" where
  "main_loop pagesize [] rc tb s = Some (rc, tb, s)"
| "main_loop pagesize ((name, os) # rest) rc tb s =
     (case fincore_name pagesize os name (sb_uninit os) 0 s of
        None \<Rightarrow> None
      | Some (r, sb, count_incore, s') \<Rightarrow>
          if r = 0 then
            (case add_output_data (new_line_ok os) name (st_size sb) count_incore of
               Inl msg \<Rightarrow> Some (EXIT_FAILURE, [], emit [Result name r, Err msg] s')
             | Inr line \<Rightarrow> main_loop pagesize rest rc (tb @ [line]) (emit [Result name r] s'))
          else if r = 1 then main_loop pagesize rest rc tb (emit [Result name r] s')
          else main_loop pagesize rest EXIT_FAILURE tb (emit [Result name r] s'))"

text \<open>
  \<^verbatim>\<open>main\<close> after the options are parsed (\<^verbatim>\<open>-V\<close> and \<^verbatim>\<open>-h\<close> end the process before any
  file is looked at): \<open>args\<close> are the remaining arguments,
  \<open>new_table_ok\<close> and \<open>new_column_ok\<close> tell whether \<^verbatim>\<open>scols_new_table\<close> and
  \<^verbatim>\<open>scols_table_new_column\<close> succeed, \<open>vec0\<close> is the static vector, all zero when the
  process starts.
\<close>

definition vec0 :: "nat \<Rightarrow> 8 word" where
  "vec0 = (\<lambda>i. 0)"

definition main ::
  "int \<Rightarrow> bool \<Rightarrow> (nat \<Rightarrow> bool) \<Rightarrow> (string \<times> sys) list
     \<Rightarrow> (int \<times> cell list list \<times> state) option" where
  "main pagesize new_table_ok new_column_ok args =
     (if args = [] then
        Some (EXIT_FAILURE, [], \<lparr>vec = vec0, trace = [Err ''no file specified'']\<rparr>)
      else if \<not> new_table_ok then
        Some (EXIT_FAILURE, [], \<lparr>vec = vec0, trace = [Err ''failed to create output table'']\<rparr>)
      else if \<not> list_all new_column_ok [0 ..< length columns] then
        Some (EXIT_FAILURE, [], \<lparr>vec = vec0, trace = [Err ''failed to initialize output column'']\<rparr>)
      else main_loop pagesize args EXIT_SUCCESS [] \<lparr>vec = vec0, trace = []\<rparr>)"

subsection \<open>Reading a trace\<close>

text \<open>The windows that were mapped, as offset and length, in the order of the calls.\<close>

fun windows :: "event list \<Rightarrow> (int \<times> int) list" where
  "windows [] = []"
| "windows (Mmap len fd off r # es) = (off, len) # windows es"
| "windows (e # es) = windows es"

text \<open>The indices of the vector that were read.\<close>

fun vec_reads :: "event list \<Rightarrow> int list" where
  "vec_reads [] = []"
| "vec_reads (VecRead i # es) = i # vec_reads es"
| "vec_reads (e # es) = vec_reads es"

text \<open>The indices of the vector that were set to zero.\<close>

fun vec_clears :: "event list \<Rightarrow> int list" where
  "vec_clears [] = []"
| "vec_clears (VecClear i # es) = i # vec_clears es"
| "vec_clears (e # es) = vec_clears es"

text \<open>The values \<^verbatim>\<open>fincore_name\<close> returned, with the argument each was returned for.\<close>

fun results :: "event list \<Rightarrow> (string \<times> int) list" where
  "results [] = []"
| "results (Result name r # es) = (name, r) # results es"
| "results (e # es) = results es"

text \<open>The diagnostics of \<^verbatim>\<open>warn\<close>, as message and file name.\<close>

fun warnings :: "event list \<Rightarrow> (string \<times> string) list" where
  "warnings [] = []"
| "warnings (Warn msg name # es) = (msg, name) # warnings es"
| "warnings (e # es) = warnings es"

text \<open>The mappings that are still established at the end of a trace: every
  \<^verbatim>\<open>mmap\<close> that succeeded adds its address and length, every \<^verbatim>\<open>munmap\<close> removes
  them.\<close>

fun mapped :: "event list \<Rightarrow> (int \<times> int) list \<Rightarrow> (int \<times> int) list" where
  "mapped [] live = live"
| "mapped (Mmap len fd off (Some w) # es) live = mapped es (live @ [(w, len)])"
| "mapped (Munmap w len # es) live = mapped es (remove1 (w, len) live)"
| "mapped (e # es) live = mapped es live"

text \<open>The windows whose \<^verbatim>\<open>mmap\<close> failed, as offset and length.\<close>

fun failed_mmaps :: "event list \<Rightarrow> (int \<times> int) list" where
  "failed_mmaps [] = []"
| "failed_mmaps (Mmap len fd off None # es) = (off, len) # failed_mmaps es"
| "failed_mmaps (e # es) = failed_mmaps es"

text \<open>The messages of \<^verbatim>\<open>err\<close> and \<^verbatim>\<open>warnx\<close>, which end the process.\<close>

fun errors :: "event list \<Rightarrow> string list" where
  "errors [] = []"
| "errors (Err msg # es) = msg # errors es"
| "errors (e # es) = errors es"

text \<open>Traces that consist of accesses to the vector only.\<close>

definition vec_only :: "event list \<Rightarrow> bool" where
  "vec_only es = list_all (\<lambda>e. case e of VecRead i \<Rightarrow> True | VecClear i \<Rightarrow> True | _ \<Rightarrow> False) es"

text \<open>Traces without a diagnostic, a failed \<^verbatim>\<open>mmap\<close>, an error exit or a result.\<close>

definition quiet :: "event list \<Rightarrow> bool" where
  "quiet es = (warnings es = [] \<and> failed_mmaps es = [] \<and> errors es = [] \<and> results es = [])"

text \<open>
  The three ways in which a run of the window loop that starts with \<open>warned_once\<close> unset
  extends the trace: it ends normally, it ends with a failed \<^verbatim>\<open>mmap\<close> and its
  diagnostic, or it ends with a failed \<^verbatim>\<open>mincore\<close> and its diagnostic. Before that
  the trace is quiet.
\<close>

definition loop_shape :: "bool \<Rightarrow> int \<Rightarrow> string \<Rightarrow> int \<Rightarrow> state \<Rightarrow> int \<times> int \<times> state \<Rightarrow> bool" where
  "loop_shape wo fd name rc s res = (\<not> wo \<longrightarrow> (\<exists>es0. quiet es0 \<and>
        (case res of (rc', c', s') \<Rightarrow>
            (trace s' = trace s @ es0 \<and> (rc' = rc \<or> rc' = 0))
          \<or> (\<exists>l a. trace s' = trace s @ es0 @ [Mmap l fd a None, Warn ''failed to do mmap'' name]
                 \<and> rc' = - errno_val EINVAL)
          \<or> (\<exists>e w l. trace s' = trace s @ es0 @ [Mincore w l, Warn ''failed to do mincore'' name]
                 \<and> rc' = - errno_val e))))"

subsection \<open>The outcome of a path, read from the answers of the system\<close>

text \<open>
  The outcomes that the specification distinguishes (4.1 to 4.4, 7): the path could not
  be opened; its metadata query failed; it is a directory; it was scanned, every mapping
  and every residency query having succeeded; establishing a mapping failed; a residency
  query failed.
\<close>

datatype outcome =
    Open_failed
  | Stat_failed errno
  | Is_directory
  | Scanned
  | Map_failed
  | Query_failed errno

text \<open>
  The first failure among the windows with the given indices of a file of size \<open>fs\<close>,
  for the window size \<open>W\<close>: window \<open>i\<close> is the range of length \<open>min W (fs - i * W)\<close> at
  offset \<open>i * W\<close>. \<open>win\<close> is the address of the window before, which \<^verbatim>\<open>mmap\<close> takes as
  its hint. This follows the words of the specification, not the loop of
  \<^verbatim>\<open>fincore_fd\<close>: the theorems below relate the two.
\<close>

fun first_failure :: "sys \<Rightarrow> int \<Rightarrow> int \<Rightarrow> int \<Rightarrow> int \<Rightarrow> nat list \<Rightarrow> outcome" where
  "first_failure os fd W fs win [] = Scanned"
| "first_failure os fd W fs win (i # is) =
     (case sys_mmap os win (min W (fs - int i * W)) fd (int i * W) of
        None \<Rightarrow> Map_failed
      | Some w \<Rightarrow>
          (case sys_mincore os (int i * W) w (min W (fs - int i * W)) of
             MincoreErr e bs \<Rightarrow> Query_failed e
           | MincoreOk bs \<Rightarrow> first_failure os fd W fs w is))"

text \<open>The outcome of a path for the page size \<open>pagesize\<close>: the windows of a file of size
  \<open>s\<close> are those with the indices below \<open>\<lceil>s / W\<rceil>\<close>, where \<open>W\<close> is
  \<open>N_PAGES_IN_WINDOW * pagesize\<close>; a file of size 0 has none.\<close>

definition outcome_of_path :: "int \<Rightarrow> sys \<Rightarrow> outcome" where
  "outcome_of_path pagesize os =
     (if sys_open os < 0 then Open_failed
      else
        (case sys_fstat os of
           Inl e \<Rightarrow> Stat_failed e
         | Inr sb \<Rightarrow>
             if st_isdir sb then Is_directory
             else first_failure os (sys_open os) (N_PAGES_IN_WINDOW * pagesize) (st_size sb) 0
                    [0 ..< nat ((st_size sb + N_PAGES_IN_WINDOW * pagesize - 1)
                                 div (N_PAGES_IN_WINDOW * pagesize))]))"

text \<open>The fatal errors of a path: a metadata-query failure, a mapping failure, a
  residency-query failure.\<close>

fun fatal_outcome :: "outcome \<Rightarrow> bool" where
  "fatal_outcome (Stat_failed e) = True"
| "fatal_outcome Map_failed = True"
| "fatal_outcome (Query_failed e) = True"
| "fatal_outcome x = False"

text \<open>The value that \<^verbatim>\<open>fincore_name\<close> is to return for an outcome, by the comment above
  it: \<^verbatim>\<open><0\<close> on error, \<^verbatim>\<open>0\<close> success, \<^verbatim>\<open>1\<close> ignore; and 0 after a failed open, as the
  code has it.\<close>

fun rc_of :: "outcome \<Rightarrow> int" where
  "rc_of Open_failed = 0"
| "rc_of (Stat_failed e) = - errno_val e"
| "rc_of Is_directory = 1"
| "rc_of Scanned = 0"
| "rc_of Map_failed = - errno_val EINVAL"
| "rc_of (Query_failed e) = - errno_val e"

text \<open>An argument for which a row is to be added while no line can be had for it: there
  \<^verbatim>\<open>err\<close> ends the run.\<close>

definition line_error :: "int \<Rightarrow> string \<times> sys \<Rightarrow> bool" where
  "line_error pagesize a =
     (rc_of (outcome_of_path pagesize (snd a)) = 0 \<and> \<not> new_line_ok (snd a))"

text \<open>The sizes for which the offsets of the window loop stay in the range of
  \<^verbatim>\<open>off_t\<close>.\<close>

definition size_in_range :: "int \<Rightarrow> string \<times> sys \<Rightarrow> bool" where
  "size_in_range pagesize a =
     (case sys_fstat (snd a) of
        Inl e \<Rightarrow> True
      | Inr sb \<Rightarrow> st_size sb + N_PAGES_IN_WINDOW * pagesize \<le> 2 ^ 63)"


subsection \<open>Sample inputs\<close>

text \<open>A regular file of the given size on file descriptor 3, whose windows are all
  mapped at address 4096 and whose residency queries store the bytes 1, 2 and 3.\<close>

definition sample_file :: "int \<Rightarrow> sys" where
  "sample_file sz =
     \<lparr>sys_open = 3,
      sys_fstat = Inr \<lparr>st_isdir = False, st_size = sz\<rparr>,
      sys_mmap = (\<lambda>window len fd off. Some 4096),
      sys_mincore = (\<lambda>off window len. MincoreOk [1, 2, 3]),
      new_line_ok = True,
      sb_uninit = \<lparr>st_isdir = False, st_size = 77\<rparr>\<rparr>"

text \<open>The state in which \<^verbatim>\<open>main\<close> starts.\<close>

definition state0 :: state where
  "state0 = \<lparr>vec = vec0, trace = []\<rparr>"

declare count_loop.simps [simp del]

section \<open>Properties\<close>

subsection \<open>Conversions, traces\<close>



lemma to_size_t_id: "0 \<le> x \<Longrightarrow> x < 2 ^ 64 \<Longrightarrow> to_size_t x = x"
  by (simp add: to_size_t_def)

lemma to_off_t_id: "- (2 ^ 63) \<le> x \<Longrightarrow> x < 2 ^ 63 \<Longrightarrow> to_off_t x = x"
  by (simp add: to_off_t_def mod_pos_pos_trivial)

lemma to_int_id: "- (2 ^ 31) \<le> x \<Longrightarrow> x < 2 ^ 31 \<Longrightarrow> to_int x = x"
  by (simp add: to_int_def mod_pos_pos_trivial)

lemma trace_emit [simp]: "trace (emit es s) = trace s @ es"
  by (simp add: emit_def)

lemma vec_emit [simp]: "vec (emit es s) = vec s"
  by (simp add: emit_def)

lemma lsb_test: "(w AND 1 \<noteq> 0) = bit w 0" for w :: "8 word"
  by (simp add: and_one_eq bit_0 mod_2_eq_odd)

lemma vec_reads_append [simp]: "vec_reads (xs @ ys) = vec_reads xs @ vec_reads ys"
  by (induction xs rule: vec_reads.induct) simp_all

lemma vec_clears_append [simp]: "vec_clears (xs @ ys) = vec_clears xs @ vec_clears ys"
  by (induction xs rule: vec_clears.induct) simp_all

lemma windows_append [simp]: "windows (xs @ ys) = windows xs @ windows ys"
  by (induction xs rule: windows.induct) simp_all

lemma results_append [simp]: "results (xs @ ys) = results xs @ results ys"
  by (induction xs rule: results.induct) simp_all

lemma warnings_append [simp]: "warnings (xs @ ys) = warnings xs @ warnings ys"
  by (induction xs rule: warnings.induct) simp_all

subsection \<open>The counting loop and \<^verbatim>\<open>do_mincore\<close>\<close>

lemma down_from: "0 < n \<Longrightarrow> rev (map int [0 ..< nat n]) = (n - 1) # rev (map int [0 ..< nat (n - 1)])"
proof -
  assume "0 < n"
  then have "nat n = Suc (nat (n - 1))" by simp
  then show ?thesis using \<open>0 < n\<close> by simp
qed

lemma count_loop_reads:
  "vec_reads (trace (snd (count_loop n c s))) = vec_reads (trace s) @ rev (map int [0 ..< nat n])"
proof (induction n c s rule: count_loop.induct)
  case (1 n c s)
  show ?case
  proof (cases "0 < n")
    case False
    then show ?thesis by (simp add: count_loop.simps [of n])
  next
    case True
    then show ?thesis
      using 1 by (simp add: count_loop.simps [of n] down_from)
  qed
qed


lemma count_loop_count:
  "0 \<le> c \<Longrightarrow> c + n < 2 ^ 63 \<Longrightarrow>
   fst (count_loop n c s) = c + int (length (filter (\<lambda>i. bit (vec s i) 0) [0 ..< nat n]))"
proof (induction n c s rule: count_loop.induct)
  case (1 n c s)
  show ?case
  proof (cases "0 < n")
    case False
    then show ?thesis by (simp add: count_loop.simps [of n])
  next
    case True
    then have n: "nat n = Suc (nat (n - 1))" by simp
    show ?thesis
    proof (cases "bit (vec s (nat (n - 1))) 0")
      case set: True
      have c1: "to_off_t (c + 1) = c + 1"
        using 1(3,4) True by (intro to_off_t_id) auto
      have "filter (\<lambda>i. bit (((vec s)(nat (n - 1) := 0)) i) 0) [0 ..< nat (n - 1)]
            = filter (\<lambda>i. bit (vec s i) 0) [0 ..< nat (n - 1)]"
        by (rule filter_cong) auto
      then show ?thesis
        using 1(1) [OF True] 1(3,4) True set c1
        by (simp add: count_loop.simps [of n] lsb_test n)
    next
      case clear: False
      then show ?thesis
        using 1(2) [OF True] 1(3,4) True
        by (simp add: count_loop.simps [of n] lsb_test n)
    qed
  qed
qed

lemma count_loop_vec:
  "vec (snd (count_loop n c s)) i = (if i < nat n \<and> bit (vec s i) 0 then 0 else vec s i)"
proof (induction n c s rule: count_loop.induct)
  case (1 n c s)
  show ?case
  proof (cases "0 < n")
    case False
    then show ?thesis by (simp add: count_loop.simps [of n])
  next
    case True
    then have n: "i < nat n \<longleftrightarrow> i < nat (n - 1) \<or> i = nat (n - 1)" by auto
    show ?thesis
      using 1 True by (auto simp add: count_loop.simps [of n] lsb_test n)
  qed
qed

lemma count_loop_clears:
  "vec_clears (trace (snd (count_loop n c s)))
     = vec_clears (trace s) @ rev (filter (\<lambda>i. bit (vec s (nat i)) 0) (map int [0 ..< nat n]))"
proof (induction n c s rule: count_loop.induct)
  case (1 n c s)
  show ?case
  proof (cases "0 < n")
    case False
    then show ?thesis by (simp add: count_loop.simps [of n])
  next
    case True
    then have n: "nat n = Suc (nat (n - 1))" by simp
    have "filter (\<lambda>i. bit (((vec s)(nat (n - 1) := 0)) (nat i)) 0) (map int [0 ..< nat (n - 1)])
            = filter (\<lambda>i. bit (vec s (nat i)) 0) (map int [0 ..< nat (n - 1)])"
      by (rule filter_cong) auto
    then show ?thesis
      using 1 True by (simp add: count_loop.simps [of n] lsb_test n)
  qed
qed

lemma count_loop_windows:
  "windows (trace (snd (count_loop n c s))) = windows (trace s)"
  by (induction n c s rule: count_loop.induct) (simp add: count_loop.simps)

lemma ceil_div: "0 < p \<Longrightarrow> \<lceil>real_of_int l / real_of_int p\<rceil> = l div p + (if l mod p \<noteq> 0 then 1 else 0)"
  by (simp add: ceiling_divide_eq_div zdiv_zminus1_eq_if)

lemma n_pages_eq:
  assumes "0 < p" "p < 2 ^ 31" "0 \<le> l" "l \<le> N_PAGES_IN_WINDOW * p"
  shows "n_pages p l = \<lceil>real_of_int l / real_of_int p\<rceil>"
    and "0 \<le> n_pages p l" and "n_pages p l \<le> N_PAGES_IN_WINDOW"
proof -
  let ?n = "l div p + (if l mod p \<noteq> 0 then 1 else 0)"
  have p: "to_size_t p = p"
    using assms by (intro to_size_t_id) auto
  have d0: "0 \<le> l div p"
    using assms by (simp add: pos_imp_zdiv_nonneg_iff)
  have n0: "0 \<le> ?n" using d0 by simp
  have "l \<le> 32768 * p" using assms by (simp add: N_PAGES_IN_WINDOW_def)
  have dle: "l div p \<le> 32768"
    using \<open>l \<le> 32768 * p\<close> assms(1) by (metis zdiv_mono1 nonzero_mult_div_cancel_right less_irrefl)
  have "l mod p \<noteq> 0 \<Longrightarrow> l div p < 32768"
  proof -
    assume m: "l mod p \<noteq> 0"
    show ?thesis
    proof (rule ccontr)
      assume "\<not> l div p < 32768"
      with dle have "l div p = 32768" by simp
      then have "l = 32768 * p + l mod p"
        using div_mult_mod_eq [of l p] by simp
      moreover have "0 \<le> l mod p" using assms(1) by simp
      then have "0 < l mod p" using m by linarith
      ultimately show False using \<open>l \<le> 32768 * p\<close> by simp
    qed
  qed
  with dle have nle: "?n \<le> 32768" by auto
  have "to_int (to_size_t ?n) = ?n"
    using n0 nle by (simp add: to_size_t_id to_int_id)
  then have n: "n_pages p l = ?n" by (simp add: n_pages_def p)
  show "n_pages p l = \<lceil>real_of_int l / real_of_int p\<rceil>"
    using n assms(1) by (simp add: ceil_div)
  show "0 \<le> n_pages p l" using n n0 by simp
  show "n_pages p l \<le> N_PAGES_IN_WINDOW" using n nle by (simp add: N_PAGES_IN_WINDOW_def)
qed


lemma do_mincore_ok:
  assumes "0 < p" "p < 2 ^ 31" "mincore w l = MincoreOk bs"
  shows "do_mincore p mincore w l name c s =
           Some (0, count_loop (n_pages p l) c (emit [Mincore w l] (s\<lparr>vec := store_bytes bs (vec s)\<rparr>)))"
proof -
  have "to_size_t p = p" using assms by (intro to_size_t_id) auto
  then show ?thesis using assms by (simp add: do_mincore_def split: prod.splits)
qed

lemma do_mincore_err:
  assumes "0 < p" "p < 2 ^ 31" "mincore w l = MincoreErr e bs"
  shows "do_mincore p mincore w l name c s =
           Some (- errno_val e, c, emit [Mincore w l, Warn ''failed to do mincore'' name]
                     (s\<lparr>vec := store_bytes bs (vec s)\<rparr>))"
proof -
  have "to_size_t p = p" using assms by (intro to_size_t_id) auto
  then show ?thesis using assms by (simp add: do_mincore_def)
qed

subsection \<open>What the window loop adds to the trace\<close>

lemma failed_mmaps_append [simp]: "failed_mmaps (xs @ ys) = failed_mmaps xs @ failed_mmaps ys"
  by (induction xs rule: failed_mmaps.induct) simp_all

lemma errors_append [simp]: "errors (xs @ ys) = errors xs @ errors ys"
  by (induction xs rule: errors.induct) simp_all

lemma errno_val_pos: "0 < errno_val e"
  by (cases e) simp_all

lemma vec_only_simps [simp]:
  "vec_only []" "vec_only (VecRead i # es) = vec_only es" "vec_only (VecClear i # es) = vec_only es"
  "vec_only (xs @ ys) = (vec_only xs \<and> vec_only ys)"
  by (simp_all add: vec_only_def)

lemma vec_only_readers:
  assumes "vec_only es"
  shows "warnings es = []" "failed_mmaps es = []" "windows es = []" "results es = []" "errors es = []"
  using assms by (induction es; simp add: vec_only_def split: event.splits)+

lemma count_loop_trace:
  "\<exists>es. trace (snd (count_loop n c s)) = trace s @ es \<and> vec_only es"
proof (induction n c s rule: count_loop.induct)
  case (1 n c s)
  show ?case
  proof (cases "0 < n")
    case False
    then show ?thesis by (simp add: count_loop.simps [of n])
  next
    case True
    show ?thesis
    proof (cases "vec s (nat (n - 1)) AND 1 \<noteq> 0")
      case set: True
      from 1(1) [OF True set] obtain es where
        "trace (snd (count_loop (n - 1) (to_off_t (c + 1))
           (emit [VecRead (n - 1), VecClear (n - 1)] (s\<lparr>vec := (vec s)(nat (n - 1) := 0)\<rparr>))))
         = trace s @ [VecRead (n - 1), VecClear (n - 1)] @ es" "vec_only es"
        by auto
      then show ?thesis
        using True set by (subst count_loop.simps) (simp del: append.simps)
    next
      case clear: False
      from 1(2) [OF True clear] obtain es where
        "trace (snd (count_loop (n - 1) c (emit [VecRead (n - 1)] s)))
         = trace s @ [VecRead (n - 1)] @ es" "vec_only es"
        by auto
      then show ?thesis
        using True clear by (subst count_loop.simps) (simp del: append.simps)
    qed
  qed
qed

lemma do_mincore_shape:
  assumes "do_mincore p m w l name c s = Some (rc', c', s')"
  shows "(rc' = 0 \<and> (\<exists>es. trace s' = trace s @ Mincore w l # es \<and> vec_only es))
       \<or> ((\<exists>e. rc' = - errno_val e) \<and> c' = c \<and>
            trace s' = trace s @ [Mincore w l, Warn ''failed to do mincore'' name])"
proof (cases "m w l")
  case (MincoreOk bs)
  let ?s1 = "emit [Mincore w l] (s\<lparr>vec := store_bytes bs (vec s)\<rparr>)"
  from count_loop_trace [of "n_pages p l" c ?s1] obtain es where
    "trace (snd (count_loop (n_pages p l) c ?s1)) = trace s @ Mincore w l # es" "vec_only es"
    by auto
  then show ?thesis
    using assms MincoreOk by (auto simp add: do_mincore_def split: if_splits prod.splits)
next
  case (MincoreErr e bs)
  then show ?thesis
    using assms by (auto simp add: do_mincore_def split: if_splits)
qed

lemma fd_loop_shape:
  assumes "fincore_fd_loop p os fd name fs W off win rc wo c s = Some res"
  shows "loop_shape wo fd name rc s res"
proof (rule fincore_fd_loop.raw_induct [OF _ assms,
         where P = "\<lambda>p os fd name fs W off win rc wo c s res. loop_shape wo fd name rc s res"],
       goal_cases)
  case (1 loop p os fd name fs W off win rc wo c s res)
  note IH = 1(1) and body = 1(2)
  show "loop_shape wo fd name rc s res" unfolding loop_shape_def
  proof (intro impI)
    assume wo: "\<not> wo"
    show "\<exists>es0. quiet es0 \<and>
        (case res of (rc', c', s') \<Rightarrow>
            (trace s' = trace s @ es0 \<and> (rc' = rc \<or> rc' = 0))
          \<or> (\<exists>l a. trace s' = trace s @ es0 @ [Mmap l fd a None, Warn ''failed to do mmap'' name]
                 \<and> rc' = - errno_val EINVAL)
          \<or> (\<exists>e w l. trace s' = trace s @ es0 @ [Mincore w l, Warn ''failed to do mincore'' name]
                 \<and> rc' = - errno_val e))"
    proof (cases "off < fs")
      case False
      with body have "res = (rc, c, s)" by simp
      then show ?thesis by (intro exI [of _ "[]"]) (simp add: quiet_def)
    next
      case True
      define len where "len = (if W \<le> to_size_t (to_off_t (fs - off)) then W
                               else to_size_t (to_off_t (fs - off)))"
      show ?thesis
      proof (cases "sys_mmap os win len fd off")
        case None
        with body True wo have "res = (- errno_val EINVAL, c,
            emit [Mmap len fd off None, Warn ''failed to do mmap'' name] s)"
          by (simp add: Let_def len_def)
        then show ?thesis by (intro exI [of _ "[]"]) (auto simp add: quiet_def)
      next
        case (Some w)
        let ?s0 = "emit [Mmap len fd off (Some w)] s"
        from body True Some obtain rc1 c1 s1 where
          dm: "do_mincore p (sys_mincore os off) w len name c ?s0 = Some (rc1, c1, s1)"
          by (auto simp add: Let_def len_def split: option.splits)
        from do_mincore_shape [OF dm] consider
          (ok) es where "rc1 = 0" "trace s1 = trace ?s0 @ Mincore w len # es" "vec_only es"
          | (err) e where "rc1 = - errno_val e"
              "trace s1 = trace ?s0 @ [Mincore w len, Warn ''failed to do mincore'' name]"
          by blast
        then show ?thesis
        proof cases
          case err
          then have "rc1 \<noteq> 0" using errno_val_pos [of e] by simp
          with body True Some dm have "res = (rc1, c1, s1)"
            by (simp add: Let_def len_def)
          with err show ?thesis
            by (intro exI [of _ "[Mmap len fd off (Some w)]"]) (auto simp add: quiet_def)
        next
          case ok
          with body True Some dm have
            "loop p os fd name fs W (to_off_t (to_size_t (to_size_t off + W))) w 0 wo c1
               (emit [Munmap w len] s1) = Some res"
            by (simp add: Let_def len_def)
          from IH [OF this] have "loop_shape wo fd name 0 (emit [Munmap w len] s1) res" .
          then obtain es0 where es0: "quiet es0"
            "(case res of (rc', c', s') \<Rightarrow>
            (trace s' = trace (emit [Munmap w len] s1) @ es0 \<and> (rc' = 0 \<or> rc' = 0))
          \<or> (\<exists>l a. trace s' = trace (emit [Munmap w len] s1) @ es0 @ [Mmap l fd a None, Warn ''failed to do mmap'' name]
                 \<and> rc' = - errno_val EINVAL)
          \<or> (\<exists>e w' l. trace s' = trace (emit [Munmap w len] s1) @ es0 @ [Mincore w' l, Warn ''failed to do mincore'' name]
                 \<and> rc' = - errno_val e))"
            using wo unfolding loop_shape_def by blast
          let ?pre = "Mmap len fd off (Some w) # Mincore w len # es @ [Munmap w len]"
          have pre: "trace (emit [Munmap w len] s1) = trace s @ ?pre"
            using ok by simp
          have q: "quiet ?pre"
            using vec_only_readers [OF ok(3)] by (simp add: quiet_def)
          show ?thesis
            using es0 q unfolding pre
            by (intro exI [of _ "?pre @ es0"]) (auto simp add: quiet_def split: prod.splits)
        qed
      qed
    qed
  qed
qed

subsection \<open>The window loop when the offsets stay in range\<close>

lemma cdiv:
  fixes l p :: int
  assumes "0 < p"
  shows "(l + p - 1) div p = l div p + (if l mod p \<noteq> 0 then 1 else 0)"
proof -
  have "l + p - 1 = (l div p) * p + (l mod p + p - 1)"
    by (simp add: algebra_simps)
  then have e: "(l + p - 1) div p = l div p + (l mod p + p - 1) div p"
    using assms by (metis div_mult_self3 less_irrefl)
  show ?thesis
  proof (cases "l mod p = 0")
    case True
    then show ?thesis using e assms by (simp add: div_pos_pos_trivial)
  next
    case False
    have "0 \<le> l mod p" "l mod p < p" using assms by simp_all
    with False have r: "0 \<le> l mod p - 1" "l mod p - 1 < p" by linarith+
    have "(l mod p + p - 1) div p = (l mod p - 1 + p) div p" by (simp add: algebra_simps)
    also have "\<dots> = (l mod p - 1) div p + 1" using assms by simp
    also have "\<dots> = 1" using r by (simp add: div_pos_pos_trivial)
    finally show ?thesis using e False by simp
  qed
qed

lemma ceil_cdiv: "0 < p \<Longrightarrow> \<lceil>real_of_int l / real_of_int p\<rceil> = (l + p - 1) div p"
  by (simp only: cdiv ceil_div)

lemma idx:
  fixes W fs :: int
  assumes "0 < W"
  shows "(j < nat ((fs + W - 1) div W)) = (int j * W < fs)"
proof -
  have "(j < nat ((fs + W - 1) div W)) = (int j < \<lceil>real_of_int fs / real_of_int W\<rceil>)"
    using assms by (simp add: ceil_cdiv zless_nat_eq_int_zless)
  also have "\<dots> = (real_of_int (int j) < real_of_int fs / real_of_int W)"
    by (simp add: less_ceiling_iff)
  also have "\<dots> = (real_of_int (int j) * real_of_int W < real_of_int fs)"
    using assms by (simp add: pos_less_divide_eq)
  also have "\<dots> = (int j * W < fs)"
    by (metis of_int_less_iff of_int_mult)
  finally show ?thesis .
qed


lemma fd_loop_done:
  "\<not> off < fs \<Longrightarrow> fincore_fd_loop p os fd name fs W off win rc wo c s = Some (rc, c, s)"
  by (subst fincore_fd_loop.simps) simp

lemma fd_loop_step:
  assumes "0 \<le> off" "off < fs" "0 < W" "fs + W \<le> 2 ^ 63"
  shows "fincore_fd_loop p os fd name fs W off win rc wo c s =
     (case sys_mmap os win (min W (fs - off)) fd off of
        None \<Rightarrow>
          (if \<not> wo
           then Some (- errno_val EINVAL, c,
                  emit [Mmap (min W (fs - off)) fd off None, Warn ''failed to do mmap'' name] s)
           else Some (rc, c, emit [Mmap (min W (fs - off)) fd off None] s))
      | Some w \<Rightarrow>
          (case do_mincore p (sys_mincore os off) w (min W (fs - off)) name c
                  (emit [Mmap (min W (fs - off)) fd off (Some w)] s) of
             None \<Rightarrow> None
           | Some (rc', c', s') \<Rightarrow>
               if rc' \<noteq> 0 then Some (rc', c', s')
               else fincore_fd_loop p os fd name fs W (off + W) w rc' wo c'
                      (emit [Munmap w (min W (fs - off))] s')))"
proof -
  have a: "to_off_t (fs - off) = fs - off"
    using assms by (intro to_off_t_id) auto
  have b: "to_size_t (fs - off) = fs - off"
    using assms by (intro to_size_t_id) auto
  have c: "to_size_t off = off"
    using assms by (intro to_size_t_id) auto
  have d: "to_size_t (off + W) = off + W"
    using assms by (intro to_size_t_id) auto
  have e: "to_off_t (off + W) = off + W"
    using assms by (intro to_off_t_id) auto
  have f: "(if W \<le> fs - off then W else fs - off) = min W (fs - off)"
    by (simp add: min_def)
  show ?thesis
    by (subst fincore_fd_loop.simps, unfold Let_def a b c d e f, simp only: assms(2) if_True)
qed


lemma n_pages_cdiv:
  assumes "0 < p" "p < 2 ^ 31" "0 \<le> l" "l \<le> N_PAGES_IN_WINDOW * p"
  shows "n_pages p l = (l + p - 1) div p"
  using n_pages_eq(1) [OF assms] ceil_cdiv [OF assms(1), of l] by simp

lemma cdiv_le_self:
  fixes l p :: int
  assumes "0 < p" "0 \<le> l"
  shows "(l + p - 1) div p \<le> l"
proof -
  have q0: "0 \<le> l div p" using assms by (simp add: pos_imp_zdiv_nonneg_iff)
  have "l div p * 1 \<le> l div p * p"
    using q0 assms(1) by (intro mult_left_mono) auto
  then have qp: "l div p \<le> l div p * p" by simp
  have l: "l = l div p * p + l mod p" by simp
  have m: "0 \<le> l mod p" using assms by simp
  show ?thesis
  proof (cases "l mod p = 0")
    case True
    have "l div p \<le> l div p * p + l mod p" using qp m by linarith
    also have "\<dots> = l" by simp
    finally show ?thesis using True by (simp add: cdiv [OF assms(1)])
  next
    case False
    then have "1 \<le> l mod p" using m by linarith
    then have "l div p + 1 \<le> l div p * p + l mod p" using qp by linarith
    also have "\<dots> = l" by simp
    finally show ?thesis using False by (simp add: cdiv [OF assms(1)])
  qed
qed

lemma fd_loop_total:
  fixes p W fs c :: int and j K :: nat
  assumes p: "0 < p" "p < 2 ^ 31" and W: "W = N_PAGES_IN_WINDOW * p" and fs: "fs + W \<le> 2 ^ 63"
    and K: "K = nat ((fs + W - 1) div W)"
    and c: "0 \<le> c" "c + (fs - int j * W) < 2 ^ 63"
  shows "\<exists>rc' c' s' ws.
           fincore_fd_loop p os fd name fs W (int j * W) win 0 False c s = Some (rc', c', s')
           \<and> windows (trace s') = windows (trace s) @ ws
           \<and> prefix ws (map (\<lambda>i. (int i * W, min W (fs - int i * W))) [j ..< K])
           \<and> (rc' = 0 \<longrightarrow> ws = map (\<lambda>i. (int i * W, min W (fs - int i * W))) [j ..< K])
           \<and> c \<le> c' \<and> c' \<le> c + (if j < K then (fs - int j * W + p - 1) div p else 0)
           \<and> rc' = rc_of (first_failure os fd W fs win [j ..< K])"
  using c
proof (induction "K - j" arbitrary: j win c s)
  case 0
  have W0: "0 < W" using p W by (simp add: N_PAGES_IN_WINDOW_def)
  from 0 have "\<not> j < K" by simp
  then have "\<not> int j * W < fs" using idx [OF W0, of j fs] K by simp
  then have "fincore_fd_loop p os fd name fs W (int j * W) win 0 False c s = Some (0, c, s)"
    by (rule fd_loop_done)
  then show ?case using \<open>\<not> j < K\<close> by simp
next
  case (Suc n)
  let ?tile = "\<lambda>i. (int i * W, min W (fs - int i * W))"
  let ?off = "int j * W"
  let ?len = "min W (fs - ?off)"
  have W0: "0 < W" using p W by (simp add: N_PAGES_IN_WINDOW_def)
  from Suc(2) have jK: "j < K" by simp
  then have off: "?off < fs" using idx [OF W0, of j fs] K by simp
  have off0: "0 \<le> ?off" using W0 by simp
  have len: "0 < ?len" "?len \<le> W" "?len \<le> fs - ?off" using off W0 by simp_all
  have tiles: "map ?tile [j ..< K] = (?off, ?len) # map ?tile [Suc j ..< K]"
    using jK by (simp add: upt_conv_Cons)
  have B0: "0 \<le> (fs - ?off + p - 1) div p"
    using off p by (simp add: pos_imp_zdiv_nonneg_iff)
  have idxs: "[j ..< K] = j # [Suc j ..< K]"
    using jK by (simp add: upt_conv_Cons)
  note step = fd_loop_step [OF off0 off W0 fs, of p os fd name win 0 False c s]
  show ?case
  proof (cases "sys_mmap os win ?len fd ?off")
    case None
    then have "fincore_fd_loop p os fd name fs W ?off win 0 False c s =
        Some (- errno_val EINVAL, c, emit [Mmap ?len fd ?off None, Warn ''failed to do mmap'' name] s)"
      using step by simp
    then show ?thesis
      using tiles jK B0 idxs None by (intro exI [of _ "- errno_val EINVAL"] exI [of _ c] exI [of _ "emit [Mmap ?len fd ?off None, Warn ''failed to do mmap'' name] s"] exI [of _ "[(?off, ?len)]"]) simp
  next
    case (Some w)
    let ?s0 = "emit [Mmap ?len fd ?off (Some w)] s"
    show ?thesis
    proof (cases "sys_mincore os ?off w ?len")
      case (MincoreErr e bs)
      let ?s1 = "emit [Mincore w ?len, Warn ''failed to do mincore'' name] (?s0\<lparr>vec := store_bytes bs (vec ?s0)\<rparr>)"
      have "do_mincore p (sys_mincore os ?off) w ?len name c ?s0 = Some (- errno_val e, c, ?s1)"
        by (rule do_mincore_err [of p "sys_mincore os ?off" w ?len e bs name c ?s0, OF p MincoreErr])
      then have "fincore_fd_loop p os fd name fs W ?off win 0 False c s = Some (- errno_val e, c, ?s1)"
        using step Some errno_val_pos [of e] by simp
      then show ?thesis
        using tiles jK B0 errno_val_pos [of e] idxs Some MincoreErr
        by (intro exI [of _ "- errno_val e"] exI [of _ c] exI [of _ ?s1] exI [of _ "[(?off, ?len)]"]) simp
    next
      case (MincoreOk bs)
      let ?s0' = "emit [Mincore w ?len] (?s0\<lparr>vec := store_bytes bs (vec ?s0)\<rparr>)"
      let ?np = "n_pages p ?len"
      obtain c1 s1 where cl: "count_loop ?np c ?s0' = (c1, s1)"
        by (cases "count_loop ?np c ?s0'")
      have dm: "do_mincore p (sys_mincore os ?off) w ?len name c ?s0 = Some (0, c1, s1)"
        using do_mincore_ok [of p "sys_mincore os ?off" w ?len bs name c ?s0, OF p MincoreOk] cl
        by simp
      have lenN: "?len \<le> N_PAGES_IN_WINDOW * p" using len(2) W by simp
      have len0: "0 \<le> ?len" using len(1) by simp
      have np: "?np = (?len + p - 1) div p"
        by (rule n_pages_cdiv [OF p len0 lenN])
      have np0: "0 \<le> ?np"
        by (rule n_pages_eq(2) [OF p len0 lenN])
      have nple: "?np \<le> ?len"
        unfolding np by (rule cdiv_le_self [OF p(1) len0])
      have cn: "c + ?np < 2 ^ 63"
        using nple len(3) Suc(4) by linarith
      have c1: "c1 = c + int (length (filter (\<lambda>i. bit (vec ?s0' i) 0) [0 ..< nat ?np]))"
        using count_loop_count [OF Suc(3) cn, of ?s0'] cl by simp
      have "int (length (filter (\<lambda>i. bit (vec ?s0' i) 0) [0 ..< nat ?np])) \<le> int (length [0 ..< nat ?np])"
        by (intro iffD2 [OF of_nat_le_iff] length_filter_le)
      then have c1b: "c \<le> c1" "c1 \<le> c + ?np" using c1 np0 by simp_all
      from count_loop_trace [of ?np c ?s0'] cl obtain es where
        es: "trace s1 = trace s @ Mmap ?len fd ?off (Some w) # Mincore w ?len # es" "vec_only es"
        by auto
      let ?s2 = "emit [Munmap w ?len] s1"
      have w2: "windows (trace ?s2) = windows (trace s) @ [(?off, ?len)]"
        using es vec_only_readers(3) [OF es(2)] by simp
      have next_off: "int (Suc j) * W = ?off + W" by (simp add: algebra_simps)
      have n: "n = K - Suc j" using Suc(2) by simp
      have c10: "0 \<le> c1" using c1b Suc(3) by simp
      have c1r: "c1 + (fs - int (Suc j) * W) < 2 ^ 63"
        using c1b nple len(2) Suc(4) unfolding next_off by linarith
      from Suc(1) [OF n c10 c1r, of w ?s2] obtain rc' c' s' ws where
        r: "fincore_fd_loop p os fd name fs W (?off + W) w 0 False c1 ?s2 = Some (rc', c', s')"
        and ws: "windows (trace s') = windows (trace ?s2) @ ws"
          "prefix ws (map ?tile [Suc j ..< K])"
          "rc' = 0 \<longrightarrow> ws = map ?tile [Suc j ..< K]"
        and c': "c1 \<le> c'" "c' \<le> c1 + (if Suc j < K then (fs - int (Suc j) * W + p - 1) div p else 0)"
        and rcf: "rc' = rc_of (first_failure os fd W fs w [Suc j ..< K])"
        unfolding next_off by blast
      have run: "fincore_fd_loop p os fd name fs W ?off win 0 False c s = Some (rc', c', s')"
        using step Some dm r by simp
      have bound: "?np + (if Suc j < K then (fs - int (Suc j) * W + p - 1) div p else 0)
            \<le> (fs - ?off + p - 1) div p"
      proof (cases "Suc j < K")
        case True
        then have "int (Suc j) * W < fs" using idx [OF W0, of "Suc j" fs] K by simp
        then have lw: "?len = W" unfolding next_off by simp
        have "(W + p - 1) div p = N_PAGES_IN_WINDOW + (p - 1) div p"
          unfolding W using p(1) by (metis add_diff_eq div_mult_self3 less_irrefl)
        then have npW: "?np = N_PAGES_IN_WINDOW"
          using np lw p by (simp add: div_pos_pos_trivial)
        have "fs - ?off + p - 1 = N_PAGES_IN_WINDOW * p + (fs - int (Suc j) * W + p - 1)"
          unfolding next_off W by (simp add: algebra_simps)
        then have "(fs - ?off + p - 1) div p = N_PAGES_IN_WINDOW + (fs - int (Suc j) * W + p - 1) div p"
          using p(1) by (metis div_mult_self3 less_irrefl)
        then show ?thesis using True npW by simp
      next
        case False
        then have "\<not> int (Suc j) * W < fs" using idx [OF W0, of "Suc j" fs] K by simp
        then have "?len = fs - ?off" unfolding next_off by simp
        then show ?thesis using False np by simp
      qed
      have "c \<le> c'" "c' \<le> c + (fs - ?off + p - 1) div p"
        using c1b c' bound by linarith+
      then show ?thesis
        using run ws w2 tiles jK idxs Some MincoreOk rcf
        by (intro exI [of _ rc'] exI [of _ c'] exI [of _ s'] exI [of _ "(?off, ?len) # ws"]) simp
    qed
  qed
qed

lemmas eval_simps = main_def fincore_name_def fincore_fd_def fincore_fd_loop.simps do_mincore_def
  count_loop.simps n_pages_def to_int_def to_size_t_def to_off_t_def N_PAGES_IN_WINDOW_def
  sample_file_def state0_def emit_def store_bytes_def vec0_def add_output_data_def columns_def
  EXIT_SUCCESS_def EXIT_FAILURE_def Let_def

lemma window_size_eq:
  assumes "0 < p" "N_PAGES_IN_WINDOW * p < 2 ^ 31"
  shows "to_size_t (to_int (N_PAGES_IN_WINDOW * p)) = N_PAGES_IN_WINDOW * p"
    and "p < 2 ^ 31" and "0 < N_PAGES_IN_WINDOW * p"
proof -
  have pos: "0 < N_PAGES_IN_WINDOW * p" using assms(1) by (simp add: N_PAGES_IN_WINDOW_def)
  then have "to_int (N_PAGES_IN_WINDOW * p) = N_PAGES_IN_WINDOW * p"
    using assms(2) by (intro to_int_id) auto
  moreover have "to_size_t (N_PAGES_IN_WINDOW * p) = N_PAGES_IN_WINDOW * p"
    using pos assms(2) by (intro to_size_t_id) auto
  ultimately show "to_size_t (to_int (N_PAGES_IN_WINDOW * p)) = N_PAGES_IN_WINDOW * p" by simp
  show "p < 2 ^ 31" using assms by (simp add: N_PAGES_IN_WINDOW_def)
  show "0 < N_PAGES_IN_WINDOW * p" by (rule pos)
qed

lemma fincore_fd_total:
  fixes p fs c :: int
  assumes "0 < p" "N_PAGES_IN_WINDOW * p < 2 ^ 31" "fs + N_PAGES_IN_WINDOW * p \<le> 2 ^ 63"
    and "0 \<le> c" "c + fs < 2 ^ 63"
  shows "\<exists>rc' c' s' ws.
           fincore_fd p os fd name fs c s = Some (rc', c', s')
           \<and> windows (trace s') = windows (trace s) @ ws
           \<and> prefix ws (map (\<lambda>i. (int i * (N_PAGES_IN_WINDOW * p),
                                     min (N_PAGES_IN_WINDOW * p) (fs - int i * (N_PAGES_IN_WINDOW * p))))
                           [0 ..< nat ((fs + N_PAGES_IN_WINDOW * p - 1) div (N_PAGES_IN_WINDOW * p))])
           \<and> (rc' = 0 \<longrightarrow> ws = map (\<lambda>i. (int i * (N_PAGES_IN_WINDOW * p),
                                     min (N_PAGES_IN_WINDOW * p) (fs - int i * (N_PAGES_IN_WINDOW * p))))
                           [0 ..< nat ((fs + N_PAGES_IN_WINDOW * p - 1) div (N_PAGES_IN_WINDOW * p))])
           \<and> c \<le> c' \<and> c' \<le> c + (if 0 < fs then (fs + p - 1) div p else 0)
           \<and> rc' = rc_of (first_failure os fd (N_PAGES_IN_WINDOW * p) fs 0
                            [0 ..< nat ((fs + N_PAGES_IN_WINDOW * p - 1) div (N_PAGES_IN_WINDOW * p))])"
proof -
  let ?W = "N_PAGES_IN_WINDOW * p"
  let ?K = "nat ((fs + ?W - 1) div ?W)"
  note w = window_size_eq [OF assms(1,2)]
  have c: "c + (fs - int 0 * ?W) < 2 ^ 63" using assms(5) by simp
  have k: "(0 < ?K) = (0 < fs)" using idx [OF w(3), of 0 fs] by simp
  have z: "fs - 0 + p - 1 = fs + p - 1" by simp
  have i0: "int 0 * ?W = 0" by simp
  from fd_loop_total [OF assms(1) w(2) refl assms(3) refl assms(4) c, of os fd name 0 s]
  show ?thesis
    unfolding fincore_fd_def w(1) k i0 z .
qed


subsection \<open>\<^verbatim>\<open>fincore_name\<close> and \<^verbatim>\<open>main\<close>\<close>

lemma failed_mmap_mem: "Mmap l f a None \<in> set es \<Longrightarrow> failed_mmaps es \<noteq> []"
  by (induction es rule: failed_mmaps.induct) auto

lemma fincore_fd_shape:
  assumes "fincore_fd p os fd name fs c s = Some (r, c', s')"
  shows "\<exists>es0. quiet es0 \<and>
     ((trace s' = trace s @ es0 \<and> r = 0)
      \<or> (\<exists>l a. trace s' = trace s @ es0 @ [Mmap l fd a None, Warn ''failed to do mmap'' name]
                 \<and> r = - errno_val EINVAL)
      \<or> (\<exists>e w l. trace s' = trace s @ es0 @ [Mincore w l, Warn ''failed to do mincore'' name]
                 \<and> r = - errno_val e))"
  using fd_loop_shape [OF assms [unfolded fincore_fd_def]]
  unfolding loop_shape_def by simp

lemma fincore_name_cases:
  assumes "fincore_name p os name sb c s = Some (r, sb', c', s')"
  obtains
    (open_failed) "sys_open os < 0" "r = 0" "sb' = sb" "c' = c"
      "trace s' = trace s @ [Open name (sys_open os), Warn ''failed to open'' name]"
  | (fstat_failed) e where "0 \<le> sys_open os" "sys_fstat os = Inl e" "r = - errno_val e"
      "trace s' = trace s @ [Open name (sys_open os), Fstat (sys_open os),
                             Warn ''failed to do fstat'' name]"
  | (directory) "0 \<le> sys_open os" "sys_fstat os = Inr sb'" "st_isdir sb'" "r = 1" "c' = c"
      "trace s' = trace s @ [Open name (sys_open os), Fstat (sys_open os), Close (sys_open os)]"
  | (empty) "0 \<le> sys_open os" "sys_fstat os = Inr sb'" "\<not> st_isdir sb'" "st_size sb' = 0"
      "r = 0" "c' = c"
      "trace s' = trace s @ [Open name (sys_open os), Fstat (sys_open os), Close (sys_open os)]"
  | (scanned) es0 where "0 \<le> sys_open os" "sys_fstat os = Inr sb'" "\<not> st_isdir sb'"
      "st_size sb' \<noteq> 0" "quiet es0" "r = 0"
      "trace s' = trace s @ Open name (sys_open os) # Fstat (sys_open os) # es0
                    @ [Close (sys_open os)]"
  | (mmap_failed) es0 l a where "0 \<le> sys_open os" "sys_fstat os = Inr sb'" "\<not> st_isdir sb'"
      "st_size sb' \<noteq> 0" "quiet es0" "r = - errno_val EINVAL"
      "trace s' = trace s @ Open name (sys_open os) # Fstat (sys_open os) # es0
                    @ [Mmap l (sys_open os) a None, Warn ''failed to do mmap'' name,
                       Close (sys_open os)]"
  | (mincore_failed) es0 e w l where "0 \<le> sys_open os" "sys_fstat os = Inr sb'"
      "\<not> st_isdir sb'" "st_size sb' \<noteq> 0" "quiet es0" "r = - errno_val e"
      "trace s' = trace s @ Open name (sys_open os) # Fstat (sys_open os) # es0
                    @ [Mincore w l, Warn ''failed to do mincore'' name, Close (sys_open os)]"
proof (cases "sys_open os < 0")
  case True
  then show ?thesis using assms open_failed by (auto simp add: fincore_name_def Let_def)
next
  case False
  then have o: "0 \<le> sys_open os" by simp
  show ?thesis
  proof (cases "sys_fstat os")
    case (Inl e)
    then show ?thesis using assms False fstat_failed [of e] o by (auto simp add: fincore_name_def Let_def)
  next
    case (Inr sb1)
    show ?thesis
    proof (cases "st_isdir sb1")
      case True
      then show ?thesis using assms False Inr directory o by (auto simp add: fincore_name_def Let_def)
    next
      case nd: False
      show ?thesis
      proof (cases "st_size sb1 = 0")
        case True
        then show ?thesis using assms False Inr nd empty o by (auto simp add: fincore_name_def Let_def)
      next
        case nz: False
        let ?fd = "sys_open os"
        let ?s0 = "emit [Open name ?fd, Fstat ?fd] s"
        from assms False Inr nd nz obtain s1 where
          fd: "fincore_fd p os ?fd name (st_size sb1) c ?s0 = Some (r, c', s1)"
          and s': "s' = emit [Close ?fd] s1" and sb': "sb' = sb1"
          by (auto simp add: fincore_name_def Let_def split: option.splits)
        from fincore_fd_shape [OF fd] obtain es0 where q: "quiet es0" and
          sh: "(trace s1 = trace ?s0 @ es0 \<and> r = 0)
      \<or> (\<exists>l a. trace s1 = trace ?s0 @ es0 @ [Mmap l ?fd a None, Warn ''failed to do mmap'' name]
                 \<and> r = - errno_val EINVAL)
      \<or> (\<exists>e w l. trace s1 = trace ?s0 @ es0 @ [Mincore w l, Warn ''failed to do mincore'' name]
                 \<and> r = - errno_val e)"
          by blast
        from sh consider
          (a) "trace s1 = trace ?s0 @ es0" "r = 0"
          | (b) l a where "trace s1 = trace ?s0 @ es0 @ [Mmap l ?fd a None, Warn ''failed to do mmap'' name]"
              "r = - errno_val EINVAL"
          | (c) e w l where "trace s1 = trace ?s0 @ es0 @ [Mincore w l, Warn ''failed to do mincore'' name]"
              "r = - errno_val e"
          by blast
        then show ?thesis
        proof cases
          case a
          show ?thesis
            by (rule scanned [of es0]) (use a o Inr nd nz q s' sb' in simp_all)
        next
          case b
          show ?thesis
            by (rule mmap_failed [of es0 l a]) (use b o Inr nd nz q s' sb' in simp_all)
        next
          case c
          show ?thesis
            by (rule mincore_failed [of es0 e w l]) (use c o Inr nd nz q s' sb' in simp_all)
        qed
      qed
    qed
  qed
qed

lemma quiet_no_failed_mmap: "quiet es \<Longrightarrow> Mmap l f a None \<notin> set es"
  using failed_mmap_mem [of l f a es] by (auto simp add: quiet_def)

lemma rc_of_fatal: "fatal_outcome x = (rc_of x \<noteq> 0 \<and> rc_of x \<noteq> 1)"
proof (cases x)
  case (Stat_failed e)
  then show ?thesis using errno_val_pos [of e] by simp
next
  case (Query_failed e)
  then show ?thesis using errno_val_pos [of e] by simp
qed simp_all


lemma fincore_name_frame:
  assumes "fincore_name p os name sb c s = Some (r, sb', c', s')"
  shows "results (trace s') = results (trace s)" and "errors (trace s') = errors (trace s)"
  using assms by (cases rule: fincore_name_cases; simp add: quiet_def)+

lemma fincore_name_outcome:
  assumes "0 < p" "N_PAGES_IN_WINDOW * p < 2 ^ 31" "size_in_range p (name, os)"
  shows "\<exists>sb' c' s'. fincore_name p os name sb 0 s
           = Some (rc_of (outcome_of_path p os), sb', c', s')"
proof (cases "sys_open os < 0")
  case True
  then show ?thesis by (simp add: fincore_name_def outcome_of_path_def)
next
  case False
  show ?thesis
  proof (cases "sys_fstat os")
    case (Inl e)
    then show ?thesis using False by (simp add: fincore_name_def outcome_of_path_def Let_def)
  next
    case (Inr sb1)
    let ?fd = "sys_open os"
    let ?W = "N_PAGES_IN_WINDOW * p"
    let ?K = "nat ((st_size sb1 + ?W - 1) div ?W)"
    note w = window_size_eq [OF assms(1,2)]
    show ?thesis
    proof (cases "st_isdir sb1")
      case True
      then show ?thesis using False Inr by (simp add: fincore_name_def outcome_of_path_def Let_def)
    next
      case nd: False
      then have oc: "outcome_of_path p os = first_failure os ?fd ?W (st_size sb1) 0 [0 ..< ?K]"
        using False Inr by (simp add: outcome_of_path_def)
      show ?thesis
      proof (cases "st_size sb1 = 0")
        case True
        then have "?K = 0" using w(3) by (simp add: div_pos_pos_trivial)
        then show ?thesis
          using True False Inr nd oc by (simp add: fincore_name_def Let_def)
      next
        case nz: False
        have r: "st_size sb1 + ?W \<le> 2 ^ 63" using assms(3) Inr by (simp add: size_in_range_def)
        then have "0 + st_size sb1 < 2 ^ 63" using w(3) by simp
        from fincore_fd_total [OF assms(1,2) r order_refl this,
            of os ?fd name "emit [Open name ?fd, Fstat ?fd] s"]
        obtain rc c s1 where
          "fincore_fd p os ?fd name (st_size sb1) 0 (emit [Open name ?fd, Fstat ?fd] s) = Some (rc, c, s1)"
          "rc = rc_of (first_failure os ?fd ?W (st_size sb1) 0 [0 ..< ?K])"
          by blast
        then show ?thesis
          using False Inr nd nz oc by (simp add: fincore_name_def Let_def)
      qed
    qed
  qed
qed

lemma main_loop_outcomes:
  assumes "0 < p" "N_PAGES_IN_WINDOW * p < 2 ^ 31" "list_all (size_in_range p) args"
  shows "\<exists>status tb' s'. main_loop p args rc tb s = Some (status, tb', s') \<and>
      (if list_ex (line_error p) args
       then status = EXIT_FAILURE \<and> tb' = [] \<and> errors (trace s') \<noteq> []
       else status = (if list_ex (\<lambda>a. fatal_outcome (outcome_of_path p (snd a))) args
                      then EXIT_FAILURE else rc)
          \<and> results (trace s')
              = results (trace s) @ map (\<lambda>a. (fst a, rc_of (outcome_of_path p (snd a)))) args
          \<and> errors (trace s') = errors (trace s)
          \<and> map last tb' = map last tb @ map (\<lambda>a. File (fst a))
                 (filter (\<lambda>a. rc_of (outcome_of_path p (snd a)) = 0) args))"
  using assms(3)
proof (induction args arbitrary: rc tb s)
  case Nil
  then show ?case by simp
next
  case (Cons a rest)
  obtain name os where a: "a = (name, os)" by (cases a)
  let ?r = "rc_of (outcome_of_path p os)"
  have "size_in_range p (name, os)" using Cons.prems a by simp
  from fincore_name_outcome [OF assms(1,2) this, of "sb_uninit os" s]
  obtain sb c s1 where fn: "fincore_name p os name (sb_uninit os) 0 s = Some (?r, sb, c, s1)"
    by blast
  note fr = fincore_name_frame [OF fn]
  have fat: "fatal_outcome (outcome_of_path p os) = (?r \<noteq> 0 \<and> ?r \<noteq> 1)"
    by (rule rc_of_fatal)
  show ?case
  proof (cases "line_error p a")
    case True
    then have "?r = 0" "\<not> new_line_ok os" by (simp_all add: line_error_def a)
    then have "main_loop p (a # rest) rc tb s
        = Some (EXIT_FAILURE, [], emit [Result name ?r, Err ''failed to initialize output line''] s1)"
      unfolding a using fn by (simp add: add_output_data_def)
    then show ?thesis using True by simp
  next
    case False
    define rc1 where "rc1 = (if ?r = 0 \<or> ?r = 1 then rc else EXIT_FAILURE)"
    define tb1 where
      "tb1 = (if ?r = 0 then tb @ [[Pages c, Size (st_size sb), File name]] else tb)"
    let ?s2 = "emit [Result name ?r] s1"
    have nl: "?r = 0 \<Longrightarrow> new_line_ok os" using False by (simp add: line_error_def a)
    have step: "main_loop p (a # rest) rc tb s = main_loop p rest rc1 tb1 ?s2"
      unfolding a rc1_def tb1_def using fn nl
      by (simp add: add_output_data_def columns_def)
    have "list_all (size_in_range p) rest" using Cons.prems by simp
    from Cons.IH [OF this, of rc1 tb1 ?s2] obtain status tb' s' where
      run: "main_loop p rest rc1 tb1 ?s2 = Some (status, tb', s')"
      and post: "if list_ex (line_error p) rest
       then status = EXIT_FAILURE \<and> tb' = [] \<and> errors (trace s') \<noteq> []
       else status = (if list_ex (\<lambda>a. fatal_outcome (outcome_of_path p (snd a))) rest
                      then EXIT_FAILURE else rc1)
          \<and> results (trace s')
              = results (trace ?s2) @ map (\<lambda>a. (fst a, rc_of (outcome_of_path p (snd a)))) rest
          \<and> errors (trace s') = errors (trace ?s2)
          \<and> map last tb' = map last tb1 @ map (\<lambda>a. File (fst a))
                 (filter (\<lambda>a. rc_of (outcome_of_path p (snd a)) = 0) rest)"
      by blast
    have last1: "map last tb1 = map last tb @ (if ?r = 0 then [File name] else [])"
      by (simp add: tb1_def)
    show ?thesis
    proof (cases "list_ex (line_error p) rest")
      case True
      then show ?thesis using step run post by simp
    next
      case nr: False
      then show ?thesis
        using step run post False fr fat last1 unfolding a
        by (auto simp add: rc1_def)
    qed
  qed
qed


lemma fincore_fd_tiles_in_range:
  fixes pagesize file_size count_incore :: int
  assumes "0 < pagesize" "N_PAGES_IN_WINDOW * pagesize < 2 ^ 31"
    and "0 < file_size" "file_size + N_PAGES_IN_WINDOW * pagesize \<le> 2 ^ 63"
    and "0 \<le> count_incore" "count_incore + file_size < 2 ^ 63"
    and "W = N_PAGES_IN_WINDOW * pagesize"
    and "T = map (\<lambda>i. (int i * W, min W (file_size - int i * W)))
                 [0 ..< nat \<lceil>real_of_int file_size / real_of_int W\<rceil>]"
  shows "\<exists>rc c s' ws.
           fincore_fd pagesize os fd name file_size count_incore s = Some (rc, c, s')
           \<and> windows (trace s') = windows (trace s) @ ws
           \<and> prefix ws T
           \<and> (rc = 0 \<longrightarrow> ws = T)
           \<and> (rc = 0 \<longrightarrow> (\<forall>k. file_size = int k * W \<longrightarrow> length ws = k))
           \<and> (rc = 0 \<longrightarrow> file_size = W + 1 \<longrightarrow> ws = [(0, W), (W, 1)])
           \<and> rc = rc_of (first_failure os fd W file_size 0
                           [0 ..< nat \<lceil>real_of_int file_size / real_of_int W\<rceil>])"
proof -
  have W0: "0 < W" using assms(1,7) by (simp add: N_PAGES_IN_WINDOW_def)
  have K: "nat \<lceil>real_of_int file_size / real_of_int W\<rceil> = nat ((file_size + W - 1) div W)"
    using ceil_cdiv [OF W0, of file_size] by simp
  have T: "T = map (\<lambda>i. (int i * W, min W (file_size - int i * W)))
                 [0 ..< nat ((file_size + W - 1) div W)]"
    unfolding assms(8) K ..
  from fincore_fd_total [OF assms(1,2,4,5,6), of os fd name s]
  have "\<exists>rc c s' ws.
      fincore_fd pagesize os fd name file_size count_incore s = Some (rc, c, s')
      \<and> windows (trace s') = windows (trace s) @ ws \<and> prefix ws T \<and> (rc = 0 \<longrightarrow> ws = T)
      \<and> rc = rc_of (first_failure os fd W file_size 0 [0 ..< nat ((file_size + W - 1) div W)])"
    unfolding T assms(7) by blast
  then obtain rc c s' ws where
    run: "fincore_fd pagesize os fd name file_size count_incore s = Some (rc, c, s')"
    and ws: "windows (trace s') = windows (trace s) @ ws" "prefix ws T" "rc = 0 \<longrightarrow> ws = T"
    and rcf: "rc = rc_of (first_failure os fd W file_size 0
                           [0 ..< nat \<lceil>real_of_int file_size / real_of_int W\<rceil>])"
    unfolding K by blast
  have mult: "length T = k" if "file_size = int k * W" for k
  proof -
    have "int k * W + W - 1 = int k * W + (W - 1)" by simp
    then have "(int k * W + W - 1) div W = int k + (W - 1) div W"
      using W0 by (metis div_mult_self3 less_irrefl)
    then have "(file_size + W - 1) div W = int k"
      using that W0 by (simp add: div_pos_pos_trivial)
    then show ?thesis unfolding T by simp
  qed
  have plus1: "T = [(0, W), (W, 1)]" if "file_size = W + 1"
  proof -
    have "file_size + W - 1 = 2 * W + 0" using that by simp
    then have "(file_size + W - 1) div W = 2 + 0 div W"
      using W0 by (metis div_mult_self3 less_irrefl)
    then have "nat ((file_size + W - 1) div W) = Suc (Suc 0)" by simp
    then have "T = [(0, min W (file_size - 0)), (W, min W (file_size - W))]"
      unfolding T by (simp add: upt_rec)
    then show ?thesis using that W0 by simp
  qed
  have a: "rc = 0 \<longrightarrow> (\<forall>k. file_size = int k * W \<longrightarrow> length ws = k)"
    using ws(3) mult by blast
  have b: "rc = 0 \<longrightarrow> file_size = W + 1 \<longrightarrow> ws = [(0, W), (W, 1)]"
    using ws(3) plus1 by blast
  show ?thesis
    using run ws a b rcf by blast
qed



lemma sample_outcomes:
  "outcome_of_path 4096 (sample_file 0) = Scanned"
  "outcome_of_path 4096 (sample_file 4097) = Scanned"
  "outcome_of_path 4096 ((sample_file 1)\<lparr>sys_open := -1\<rparr>) = Open_failed"
  "outcome_of_path 4096 ((sample_file 1)\<lparr>sys_fstat := Inr \<lparr>st_isdir = True, st_size = 4096\<rparr>\<rparr>) = Is_directory"
  "outcome_of_path 4096 ((sample_file 1)\<lparr>sys_fstat := Inl EIO\<rparr>) = Stat_failed EIO"
  "outcome_of_path 4096 ((sample_file 1)\<lparr>sys_mmap := (\<lambda>window len fd off. None)\<rparr>) = Map_failed"
  "outcome_of_path 4096 ((sample_file 1)\<lparr>sys_mincore := (\<lambda>off window len. MincoreErr ENOMEM [])\<rparr>)
     = Query_failed ENOMEM"
  by (simp_all add: outcome_of_path_def sample_file_def N_PAGES_IN_WINDOW_def)

subsection \<open>The claims\<close>

text \<open>
  Claim C2. For a window of length \<open>len > 0\<close> (at most one full window), \<^verbatim>\<open>do_mincore\<close>
  computes the page count \<open>n\<close> as \<open>\<lceil>len / pagesize\<rceil>\<close>, and when the residency query
  succeeds the counting loop reads the entries \<open>n - 1, \<dots>, 0\<close> of the vector, each
  once and no other; when the query fails no entry is read. So no entry at an index
  \<open>\<ge> \<lceil>len / pagesize\<rceil>\<close> is ever read for the window.
\<close>

theorem do_mincore_reads_page_count:
  assumes "0 < pagesize" "pagesize < 2 ^ 31" "0 < len" "len \<le> N_PAGES_IN_WINDOW * pagesize"
  shows "n_pages pagesize len = \<lceil>real_of_int len / real_of_int pagesize\<rceil> \<and>
         (\<exists>rc c s'. do_mincore pagesize mincore window len name count_incore s = Some (rc, c, s') \<and>
            vec_reads (trace s') = vec_reads (trace s) @
              (case mincore window len of
                 MincoreOk bs \<Rightarrow> rev (map int [0 ..< nat \<lceil>real_of_int len / real_of_int pagesize\<rceil>])
               | MincoreErr e bs \<Rightarrow> []))"
proof (intro conjI)
  have l0: "0 \<le> len" using assms by simp
  show n: "n_pages pagesize len = \<lceil>real_of_int len / real_of_int pagesize\<rceil>"
    by (rule n_pages_eq(1) [OF assms(1,2) l0 assms(4)])
  show "\<exists>rc c s'. do_mincore pagesize mincore window len name count_incore s = Some (rc, c, s') \<and>
            vec_reads (trace s') = vec_reads (trace s) @
              (case mincore window len of
                 MincoreOk bs \<Rightarrow> rev (map int [0 ..< nat \<lceil>real_of_int len / real_of_int pagesize\<rceil>])
               | MincoreErr e bs \<Rightarrow> [])"
  proof (cases "mincore window len")
    case (MincoreOk bs)
    obtain c s' where cl: "count_loop (n_pages pagesize len) count_incore
        (emit [Mincore window len] (s\<lparr>vec := store_bytes bs (vec s)\<rparr>)) = (c, s')"
      by (cases "count_loop (n_pages pagesize len) count_incore
        (emit [Mincore window len] (s\<lparr>vec := store_bytes bs (vec s)\<rparr>))")
    have "vec_reads (trace s') = vec_reads (trace s) @ rev (map int [0 ..< nat (n_pages pagesize len)])"
      using count_loop_reads [of "n_pages pagesize len" count_incore
          "emit [Mincore window len] (s\<lparr>vec := store_bytes bs (vec s)\<rparr>)"] cl
      by simp
    then show ?thesis
      using do_mincore_ok [of pagesize mincore window len bs name count_incore s, OF assms(1,2) MincoreOk]
        cl MincoreOk n by simp
  next
    case (MincoreErr e bs)
    then show ?thesis
      using do_mincore_err [of pagesize mincore window len e bs name count_incore s,
          OF assms(1,2) MincoreErr] by simp
  qed
qed


theorem do_mincore_reads_page_count_witness:
  "n_pages 4096 4097 = 2 \<and>
   (\<exists>rc c s'. do_mincore 4096 (sys_mincore (sample_file 4097) 0) 4096 4097 ''f'' 0 state0 = Some (rc, c, s') \<and>
       vec_reads (trace s') = [1, 0])"
  using do_mincore_reads_page_count [of 4096 4097 "sys_mincore (sample_file 4097) 0" 4096 "''f''" 0 state0]
  by (simp add: N_PAGES_IN_WINDOW_def sample_file_def state0_def numeral_2_eq_2)

text \<open>
  Claim C10. When the residency query of a window succeeds, \<^verbatim>\<open>do_mincore\<close> adds to the
  count the number of entries below the page count whose least significant bit is set
  (the other bits of an entry play no role), and the vector it leaves behind for the
  next window has exactly those entries set to zero, all other entries as the query
  left them.
\<close>

theorem do_mincore_counts_lsb_and_clears:
  assumes "0 < pagesize" "pagesize < 2 ^ 31" "0 < len" "len \<le> N_PAGES_IN_WINDOW * pagesize"
    and "mincore window len = MincoreOk bs"
    and "0 \<le> count_incore" "count_incore < 2 ^ 62"
  shows "\<exists>s'. do_mincore pagesize mincore window len name count_incore s
           = Some (0, count_incore
                      + int (length (filter (\<lambda>i. bit (store_bytes bs (vec s) i) 0)
                                       [0 ..< nat (n_pages pagesize len)])), s') \<and>
           vec s' = (\<lambda>i. if i < nat (n_pages pagesize len) \<and> bit (store_bytes bs (vec s) i) 0
                          then 0 else store_bytes bs (vec s) i) \<and>
           vec_clears (trace s') = vec_clears (trace s) @
              rev (filter (\<lambda>i. bit (store_bytes bs (vec s) (nat i)) 0)
                     (map int [0 ..< nat (n_pages pagesize len)]))"
proof -
  let ?s1 = "emit [Mincore window len] (s\<lparr>vec := store_bytes bs (vec s)\<rparr>)"
  let ?n = "n_pages pagesize len"
  have l0: "0 \<le> len" using assms by simp
  have "?n \<le> N_PAGES_IN_WINDOW"
    by (rule n_pages_eq(3) [OF assms(1,2) l0 assms(4)])
  then have nb: "count_incore + ?n < 2 ^ 63"
    using assms(7) by (simp add: N_PAGES_IN_WINDOW_def)
  obtain c s' where cl: "count_loop ?n count_incore ?s1 = (c, s')"
    by (cases "count_loop ?n count_incore ?s1")
  have c: "c = count_incore
      + int (length (filter (\<lambda>i. bit (store_bytes bs (vec s) i) 0) [0 ..< nat ?n]))"
    using count_loop_count [OF assms(6) nb, of ?s1] cl by simp
  have v: "vec s' = (\<lambda>i. if i < nat ?n \<and> bit (store_bytes bs (vec s) i) 0
                          then 0 else store_bytes bs (vec s) i)"
    using count_loop_vec [of ?n count_incore ?s1] cl by (simp add: fun_eq_iff)
  have z: "vec_clears (trace s') = vec_clears (trace s) @
              rev (filter (\<lambda>i. bit (store_bytes bs (vec s) (nat i)) 0) (map int [0 ..< nat ?n]))"
    using count_loop_clears [of ?n count_incore ?s1] cl by simp
  show ?thesis
    using do_mincore_ok [of pagesize mincore window len bs name count_incore s, OF assms(1,2,5)]
      cl c v z by simp
qed

theorem do_mincore_counts_lsb_and_clears_witness:
  "\<exists>s'. do_mincore 4096 (sys_mincore (sample_file 12288) 0) 4096 12288 ''f'' 5 state0 = Some (0, 7, s') \<and>
     vec s' 0 = 0 \<and> vec s' 1 = 2 \<and> vec s' 2 = 0 \<and> vec_clears (trace s') = [2, 0]"
  using do_mincore_counts_lsb_and_clears [of 4096 12288 "sys_mincore (sample_file 12288) 0" 4096 "[1, 2, 3]" 5 "''f''" state0]
  by (auto simp add: N_PAGES_IN_WINDOW_def sample_file_def state0_def n_pages_def to_int_def
        to_size_t_def store_bytes_def vec0_def numeral_3_eq_3)


text \<open>
  Claim C1, at an input where it fails. The page size is 65536, so that
  \<^verbatim>\<open>N_PAGES_IN_WINDOW * ctl->pagesize\<close>, computed in \<^verbatim>\<open>int\<close>, is \<open>2^31\<close> and overflows; as
  \<^verbatim>\<open>size_t\<close> the window size becomes \<open>2^64 - 2^31\<close>. The file has one byte, \<^verbatim>\<open>mmap\<close>
  succeeds at the offsets \<open>\<ge> 0\<close> and fails at negative ones. The scan maps the window
  \<open>(0, 1)\<close>, counts its page, and then goes on to a second window, at offset \<open>-2^31\<close>
  and of length \<open>2^31 + 1\<close>, whose \<^verbatim>\<open>mmap\<close> fails: the file is reported as failed. The
  claim says that the only window is \<open>(0, 1)\<close>. (For the page sizes whose window size
  fits in \<^verbatim>\<open>int\<close>, \<open>fincore_fd_tiles_in_range\<close> above proves the tiling.)
\<close>

theorem fincore_fd_window_size_overflows_at_64k_pages:
  "fincore_fd 65536
       ((sample_file 1)\<lparr>sys_mmap := (\<lambda>window len fd off. if off < 0 then None else Some 4096)\<rparr>)
       3 ''f'' 1 0 state0
   = Some (- errno_val EINVAL, 1,
           \<lparr>vec = (vec0(0 := 0))(1 := 2, 2 := 3),
            trace = [Mmap 1 3 0 (Some 4096), Mincore 4096 1, VecRead 0, VecClear 0, Munmap 4096 1,
                     Mmap 2147483649 3 (- 2147483648) None, Warn ''failed to do mmap'' ''f'']\<rparr>)
   \<and> windows [Mmap 1 3 0 (Some 4096), Mincore 4096 1, VecRead 0, VecClear 0, Munmap 4096 1,
               Mmap 2147483649 3 (- 2147483648) None, Warn ''failed to do mmap'' ''f'']
       = [(0, 1), (- 2147483648, 2147483649)]
   \<and> to_size_t (to_int (N_PAGES_IN_WINDOW * 65536)) = 18446744071562067968"
  by (simp add: eval_simps fun_eq_iff)

text \<open>
  Claim C6. The scan of a file of size \<open>s > 0\<close>, started with a count of 0 as \<^verbatim>\<open>main\<close>
  does, returns; the count it has accumulated, whether it completes or aborts, is at
  most \<open>\<lceil>s / pagesize\<rceil>\<close>, and every window it maps starts at an offset \<open>\<ge> 0\<close>, is
  not empty and ends at or before \<open>s\<close>. The sizes are those for which the arithmetic
  of the loop does not leave the range of \<^verbatim>\<open>int\<close> and \<^verbatim>\<open>off_t\<close>.
\<close>

theorem fincore_fd_count_and_windows_bounded:
  fixes pagesize file_size :: int
  assumes "0 < pagesize" "N_PAGES_IN_WINDOW * pagesize < 2 ^ 31"
    and "0 < file_size" "file_size + N_PAGES_IN_WINDOW * pagesize \<le> 2 ^ 63"
  shows "\<exists>rc c s' ws.
           fincore_fd pagesize os fd name file_size 0 s = Some (rc, c, s')
           \<and> 0 \<le> c \<and> c \<le> \<lceil>real_of_int file_size / real_of_int pagesize\<rceil>
           \<and> windows (trace s') = windows (trace s) @ ws
           \<and> list_all (\<lambda>(off, len). 0 \<le> off \<and> 0 < len \<and> off + len \<le> file_size) ws"
proof -
  let ?W = "N_PAGES_IN_WINDOW * pagesize"
  let ?T = "map (\<lambda>i. (int i * ?W, min ?W (file_size - int i * ?W)))
              [0 ..< nat ((file_size + ?W - 1) div ?W)]"
  let ?ok = "\<lambda>(off, len). 0 \<le> off \<and> 0 < len \<and> off + len \<le> file_size"
  note w = window_size_eq [OF assms(1,2)]
  have fs: "0 + file_size < 2 ^ 63" using assms(4) w(3) by simp
  from fincore_fd_total [OF assms(1,2,4) order_refl fs, of os fd name s]
  obtain rc c s' ws where
    run: "fincore_fd pagesize os fd name file_size 0 s = Some (rc, c, s')"
    and ws: "windows (trace s') = windows (trace s) @ ws" "prefix ws ?T"
    and c: "0 \<le> c" "c \<le> 0 + (if 0 < file_size then (file_size + pagesize - 1) div pagesize else 0)"
    by blast
  have cb: "c \<le> \<lceil>real_of_int file_size / real_of_int pagesize\<rceil>"
    using c(2) assms(3) ceil_cdiv [OF assms(1), of file_size] by simp
  have tile: "?ok (int i * ?W, min ?W (file_size - int i * ?W))"
    if "i < nat ((file_size + ?W - 1) div ?W)" for i
  proof -
    have "int i * ?W < file_size" using that idx [OF w(3), of i file_size] by simp
    moreover have "0 \<le> int i * ?W" using w(3) by simp
    ultimately show ?thesis using w(3) by simp
  qed
  have "\<forall>x \<in> set ?T. ?ok x"
  proof
    fix x assume "x \<in> set ?T"
    then obtain i where "i < nat ((file_size + ?W - 1) div ?W)"
      "x = (int i * ?W, min ?W (file_size - int i * ?W))" by auto
    then show "?ok x" using tile [of i] by simp
  qed
  moreover have "set ws \<subseteq> set ?T" using ws(2) by (rule set_mono_prefix)
  ultimately have "list_all ?ok ws"
    unfolding list_all_iff by blast
  then show ?thesis
    using run ws(1) c(1) cb by blast
qed


theorem fincore_fd_count_and_windows_bounded_witness:
  "\<exists>c s'. fincore_fd 4096 (sample_file 4097) 3 ''f'' 4097 0 state0 = Some (0, c, s')
     \<and> 0 \<le> c \<and> c \<le> 2
     \<and> list_all (\<lambda>(off, len). 0 \<le> off \<and> 0 < len \<and> off + len \<le> 4097) (windows (trace s'))"
proof -
  have h1: "(0::int) < 4096" by simp
  have h2: "N_PAGES_IN_WINDOW * 4096 < 2 ^ 31" by (simp add: N_PAGES_IN_WINDOW_def)
  have h3: "(0::int) < 4097" by simp
  have h4: "4097 + N_PAGES_IN_WINDOW * 4096 \<le> 2 ^ 63" by (simp add: N_PAGES_IN_WINDOW_def)
  have t: "\<lceil>real_of_int 4097 / real_of_int 4096\<rceil> = 2" by simp
  have e: "\<exists>c s'. fincore_fd 4096 (sample_file 4097) 3 ''f'' 4097 0 state0 = Some (0, c, s')"
    by (simp add: eval_simps)
  from fincore_fd_count_and_windows_bounded [where os = "sample_file 4097" and fd = 3 and name = "''f''" and s = state0,
           OF h1 h2 h3 h4]
  obtain rc c s' ws where r:
    "fincore_fd 4096 (sample_file 4097) 3 ''f'' 4097 0 state0 = Some (rc, c, s')"
    "0 \<le> c" "c \<le> 2"
    "windows (trace s') = windows (trace state0) @ ws"
    "list_all (\<lambda>(off, len). 0 \<le> off \<and> 0 < len \<and> off + len \<le> 4097) ws"
    unfolding t by blast
  from e r(1) have "rc = 0" by auto
  from r(4) have "windows (trace s') = ws" by (simp add: state0_def)
  with r \<open>rc = 0\<close> show ?thesis by blast
qed





text \<open>
  Claim C3, at an input where it fails. The first argument cannot be opened, the second
  is a regular file of 4097 bytes. The diagnostic is emitted, the exit status stays
  \<open>EXIT_SUCCESS\<close> and the second file gets its row; but \<^verbatim>\<open>fincore_name\<close> returns 0 for
  the first argument too, so \<^verbatim>\<open>main\<close> adds a row for it, with 0 pages and with the
  size found in the \<^verbatim>\<open>struct stat\<close> that was never filled (77 in this run).
\<close>

theorem main_failed_open_adds_row:
  "main 4096 True (\<lambda>i. True)
     [(''missing'', (sample_file 1)\<lparr>sys_open := -1\<rparr>), (''f'', sample_file 4097)]
   = Some (EXIT_SUCCESS,
           [[Pages 0, Size 77, File ''missing''], [Pages 1, Size 4097, File ''f'']],
           \<lparr>vec = (vec0(0 := 0))(1 := 2, 2 := 3),
            trace = [Open ''missing'' (-1), Warn ''failed to open'' ''missing'', Result ''missing'' 0,
                     Open ''f'' 3, Fstat 3, Mmap 4097 3 0 (Some 4096), Mincore 4096 4097,
                     VecRead 1, VecRead 0, VecClear 0, Munmap 4096 4097, Close 3,
                     Result ''f'' 0]\<rparr>)"
  by (simp add: eval_simps fun_eq_iff)

text \<open>
  Claim C4, at an input where it fails. The file has one byte; its window is mapped at
  address 4096 and the residency query fails with \<open>ENOMEM\<close>. The scan returns
  \<open>-ENOMEM\<close> right after the diagnostic: no \<^verbatim>\<open>munmap\<close> follows the \<^verbatim>\<open>mmap\<close>, and the
  mapping of 1 byte at 4096 is still established when \<^verbatim>\<open>fincore_fd\<close> returns.
\<close>

theorem fincore_fd_mincore_failure_keeps_mapping:
  "fincore_fd 4096 ((sample_file 1)\<lparr>sys_mincore := (\<lambda>off window len. MincoreErr ENOMEM [])\<rparr>)
       3 ''f'' 1 0 state0
   = Some (- errno_val ENOMEM, 0,
           \<lparr>vec = vec0,
            trace = [Mmap 1 3 0 (Some 4096), Mincore 4096 1, Warn ''failed to do mincore'' ''f'']\<rparr>)
   \<and> mapped [Mmap 1 3 0 (Some 4096), Mincore 4096 1, Warn ''failed to do mincore'' ''f''] []
       = [(4096, 1)]"
  by (simp add: eval_simps)

text \<open>
  Claim C5. Let \<^verbatim>\<open>main\<close> process an argument, and let the events of that call of
  \<^verbatim>\<open>fincore_name\<close> contain an \<^verbatim>\<open>mmap\<close> that failed. Then the only diagnostic for the
  file is one report of that failure; the failed \<^verbatim>\<open>mmap\<close> is followed by the
  diagnostic and the \<^verbatim>\<open>close\<close> only, so no further window is tried, and no earlier
  \<^verbatim>\<open>mmap\<close> failed; the call returns \<open>-EINVAL\<close>. The loop of \<^verbatim>\<open>main\<close> over this
  argument and the remaining ones ends with the status \<open>EXIT_FAILURE\<close>; its results
  are \<open>-EINVAL\<close> for this file, followed by one result for each remaining argument,
  the one its outcome calls for; and the rows it adds to the table are those of the
  remaining arguments with result 0, so there is no row for this file. The remaining
  files have sizes for which the offsets stay in the range of \<^verbatim>\<open>off_t\<close>, and a line
  can be had for each of their rows.
\<close>

theorem mmap_failure_reported_once_and_aborts_file:
  assumes "fincore_name pagesize os name (sb_uninit os) 0 s = Some (r, sb, c, s')"
    and "trace s' = trace s @ es"
    and "Mmap len fd off None \<in> set es"
    and "0 < pagesize" "N_PAGES_IN_WINDOW * pagesize < 2 ^ 31"
    and "list_all (size_in_range pagesize) rest" "\<not> list_ex (line_error pagesize) rest"
  shows "warnings es = [(''failed to do mmap'', name)]
       \<and> (\<exists>es0. es = es0 @ [Mmap len fd off None, Warn ''failed to do mmap'' name, Close fd]
                \<and> failed_mmaps es0 = [])
       \<and> r = - errno_val EINVAL
       \<and> (\<exists>tb' s''. main_loop pagesize ((name, os) # rest) rc tb s = Some (EXIT_FAILURE, tb', s'')
             \<and> results (trace s'')
                 = results (trace s) @ (name, - errno_val EINVAL)
                     # map (\<lambda>a. (fst a, rc_of (outcome_of_path pagesize (snd a)))) rest
             \<and> map last tb' = map last tb @ map (\<lambda>a. File (fst a))
                   (filter (\<lambda>a. rc_of (outcome_of_path pagesize (snd a)) = 0) rest))"
  using assms(1)
proof (cases rule: fincore_name_cases)
  case open_failed
  then show ?thesis using assms(2,3) by auto
next
  case (fstat_failed e)
  then show ?thesis using assms(2,3) by auto
next
  case directory
  then show ?thesis using assms(2,3) by auto
next
  case empty
  then show ?thesis using assms(2,3) by auto
next
  case (scanned es0)
  then show ?thesis using assms(2,3) quiet_no_failed_mmap [of es0 len fd off] by auto
next
  case (mincore_failed es0 e w l)
  then show ?thesis using assms(2,3) quiet_no_failed_mmap [of es0 len fd off] by auto
next
  case (mmap_failed es0 l a)
  let ?fd = "sys_open os"
  let ?pre = "Open name ?fd # Fstat ?fd # es0"
  let ?s2 = "emit [Result name r] s'"
  have es: "es = ?pre @ [Mmap l ?fd a None, Warn ''failed to do mmap'' name, Close ?fd]"
    using mmap_failed(7) assms(2) by simp
  have "Mmap len fd off None \<notin> set es0"
    by (rule quiet_no_failed_mmap [OF mmap_failed(5)])
  with assms(3) es have same: "len = l" "fd = ?fd" "off = a" by auto
  have w: "warnings es = [(''failed to do mmap'', name)]"
    using es mmap_failed(5) by (simp add: quiet_def)
  have f: "failed_mmaps ?pre = []" using mmap_failed(5) by (simp add: quiet_def)
  have r: "r \<noteq> 0" "r \<noteq> 1" using mmap_failed(6) by simp_all
  have m: "main_loop pagesize ((name, os) # rest) rc tb s
           = main_loop pagesize rest EXIT_FAILURE tb ?s2"
    using assms(1) r by simp
  from main_loop_outcomes [OF assms(4,5,6), of EXIT_FAILURE tb ?s2] assms(7)
  obtain status tb' s'' where
    run: "main_loop pagesize rest EXIT_FAILURE tb ?s2 = Some (status, tb', s'')"
    and st: "status = (if list_ex (\<lambda>a. fatal_outcome (outcome_of_path pagesize (snd a))) rest
                      then EXIT_FAILURE else EXIT_FAILURE)"
    and rs: "results (trace s'')
              = results (trace ?s2) @ map (\<lambda>a. (fst a, rc_of (outcome_of_path pagesize (snd a)))) rest"
    and rows: "map last tb' = map last tb @ map (\<lambda>a. File (fst a))
                 (filter (\<lambda>a. rc_of (outcome_of_path pagesize (snd a)) = 0) rest)"
    by auto
  have status: "status = EXIT_FAILURE" using st by simp
  have "results (trace ?s2) = results (trace s) @ [(name, r)]"
    using fincore_name_frame(1) [OF assms(1)] by simp
  with rs mmap_failed(6) have rs': "results (trace s'')
      = results (trace s) @ (name, - errno_val EINVAL)
          # map (\<lambda>a. (fst a, rc_of (outcome_of_path pagesize (snd a)))) rest"
    by simp
  have main: "\<exists>tb' s''. main_loop pagesize ((name, os) # rest) rc tb s = Some (EXIT_FAILURE, tb', s'')
             \<and> results (trace s'')
                 = results (trace s) @ (name, - errno_val EINVAL)
                     # map (\<lambda>a. (fst a, rc_of (outcome_of_path pagesize (snd a)))) rest
             \<and> map last tb' = map last tb @ map (\<lambda>a. File (fst a))
                   (filter (\<lambda>a. rc_of (outcome_of_path pagesize (snd a)) = 0) rest)"
    using m run status rs' rows by simp
  show ?thesis
    using w es same f mmap_failed(6) main by blast
qed

theorem mmap_failure_reported_once_and_aborts_file_witness:
  "\<exists>s' tb' s''.
     fincore_name 4096 ((sample_file 1)\<lparr>sys_mmap := (\<lambda>window len fd off. None)\<rparr>) ''g''
         \<lparr>st_isdir = False, st_size = 77\<rparr> 0 state0
       = Some (-22, \<lparr>st_isdir = False, st_size = 1\<rparr>, 0, s')
     \<and> trace s' = [Open ''g'' 3, Fstat 3, Mmap 1 3 0 None, Warn ''failed to do mmap'' ''g'', Close 3]
     \<and> warnings (trace s') = [(''failed to do mmap'', ''g'')]
     \<and> main_loop 4096 [(''g'', (sample_file 1)\<lparr>sys_mmap := (\<lambda>window len fd off. None)\<rparr>),
                        (''empty'', sample_file 0), (''f'', sample_file 4097)] EXIT_SUCCESS [] state0
         = Some (EXIT_FAILURE, tb', s'')
     \<and> results (trace s'') = [(''g'', -22), (''empty'', 0), (''f'', 0)]
     \<and> map last tb' = [File ''empty'', File ''f'']"
proof -
  let ?os = "(sample_file 1)\<lparr>sys_mmap := (\<lambda>window len fd off. None)\<rparr>"
  let ?es = "[Open ''g'' 3, Fstat 3, Mmap 1 3 0 None, Warn ''failed to do mmap'' ''g'', Close 3]"
  let ?s' = "emit ?es state0"
  let ?rest = "[(''empty'', sample_file 0), (''f'', sample_file 4097)]"
  have run: "fincore_name 4096 ?os ''g'' (sb_uninit ?os) 0 state0
      = Some (-22, \<lparr>st_isdir = False, st_size = 1\<rparr>, 0, ?s')"
    by (simp add: eval_simps)
  have tr: "trace ?s' = trace state0 @ ?es" by simp
  have mem: "Mmap 1 3 0 None \<in> set ?es" by simp
  have sb: "sb_uninit ?os = \<lparr>st_isdir = False, st_size = 77\<rparr>" by (simp add: sample_file_def)
  have h4: "(0::int) < 4096" by simp
  have h5: "N_PAGES_IN_WINDOW * 4096 < 2 ^ 31" by (simp add: N_PAGES_IN_WINDOW_def)
  have h6: "list_all (size_in_range 4096) ?rest"
    by (simp add: size_in_range_def sample_file_def N_PAGES_IN_WINDOW_def)
  have h7: "\<not> list_ex (line_error 4096) ?rest"
    by (simp add: line_error_def sample_file_def)
  note inst = mmap_failure_reported_once_and_aborts_file [OF run tr mem h4 h5 h6 h7, of EXIT_SUCCESS "[]"]
  note main = inst [THEN conjunct2, THEN conjunct2, THEN conjunct2]
  have rs: "map (\<lambda>a. (fst a, rc_of (outcome_of_path 4096 (snd a)))) ?rest = [(''empty'', 0), (''f'', 0)]"
    by (simp add: sample_outcomes)
  have rows: "map (\<lambda>a. File (fst a)) (filter (\<lambda>a. rc_of (outcome_of_path 4096 (snd a)) = 0) ?rest)
      = [File ''empty'', File ''f'']"
    by (simp add: sample_outcomes)
  have st: "results (trace state0) = []" by (simp add: state0_def)
  from main obtain tb' s'' where
    "main_loop 4096 ((''g'', ?os) # ?rest) EXIT_SUCCESS [] state0 = Some (EXIT_FAILURE, tb', s'')"
    "results (trace s'') = [(''g'', -22), (''empty'', 0), (''f'', 0)]"
    "map last tb' = [File ''empty'', File ''f'']"
    unfolding rs rows st by auto
  moreover have "trace ?s' = ?es" by (simp add: state0_def)
  moreover have "warnings ?es = [(''failed to do mmap'', ''g'')]" by simp
  ultimately show ?thesis
    using run unfolding sb by (intro exI [of _ ?s'] exI [of _ tb'] exI [of _ s'']) simp
qed








end
